theory Spec2Isabelle
  imports Complex_Main "HOL-Library.Multiset"
begin

section \<open>MDP Playground: the toy environment \<open>RLToyEnv\<close>\<close>

text \<open>
  A shallow embedding of \<^verbatim>\<open>mdp_playground/envs/rl_toy_env.py\<close>. Python exceptions are
  values of the type \<open>error\<close>; a function that can raise returns \<open>error + 'a\<close>.
\<close>

datatype error = IndexError | ValueError | AssertionError | TypeError | SystemExit

subsection \<open>The dimension codec\<close>

text \<open>
  \<^verbatim>\<open>np.arange(np.prod(vector_maxes)).reshape(vector_maxes)[tuple(vector)]\<close>: an array in
  row-major order is held as its flat list of elements together with its shape. Indexing
  with the first coordinate \<open>v\<close> of a shape \<open>m # ms\<close> selects the \<open>v\<close>-th block of
  \<open>prod_list ms\<close> elements; an index that is not below its bound, or a coordinate beyond the
  number of dimensions, raises IndexError. An index tuple shorter than the shape returns the
  remaining sub-array (so the result is a list; a scalar is a one-element list).
  Coordinates are natural numbers: numpy's wrap-around of negative indices is outside this model.
\<close>

fun nd_index :: "nat list \<Rightarrow> nat list \<Rightarrow> nat list \<Rightarrow> error + nat list" where
  "nd_index flat shape [] = Inr flat"
| "nd_index flat [] (v # vs) = Inl IndexError"
| "nd_index flat (m # ms) (v # vs) =
     (if v < m then nd_index (take (prod_list ms) (drop (v * prod_list ms) flat)) ms vs
      else Inl IndexError)"

definition transform_multi_discrete_to_discrete :: "nat list \<Rightarrow> nat list \<Rightarrow> error + nat list" where
  "transform_multi_discrete_to_discrete vector vector_maxes =
     nd_index [0..<prod_list vector_maxes] vector_maxes vector"

text \<open>All index tuples of an array of the given shape, in row-major order (the order in which
  \<^verbatim>\<open>np.argwhere\<close> reports them).\<close>

fun all_indices :: "nat list \<Rightarrow> nat list list" where
  "all_indices [] = [[]]"
| "all_indices (m # ms) = concat (map (\<lambda>v. map ((#) v) (all_indices ms)) [0..<m])"

text \<open>
  \<^verbatim>\<open>np.argwhere(np.arange(np.prod(vector_maxes)).reshape(vector_maxes) == scalar).flatten()\<close>:
  the index tuples at which the array holds \<open>scalar\<close>, concatenated.
\<close>

definition transform_discrete_to_multi_discrete :: "nat \<Rightarrow> nat list \<Rightarrow> nat list" where
  "transform_discrete_to_multi_discrete scalar vector_maxes =
     concat (filter (\<lambda>idx. nd_index [0..<prod_list vector_maxes] vector_maxes idx = Inr [scalar])
                    (all_indices vector_maxes))"

text \<open>A tuple is within the per-dimension bounds.\<close>

definition in_bounds :: "nat list \<Rightarrow> nat list \<Rightarrow> bool" where
  "in_bounds vector vector_maxes = list_all2 (\<lambda>v m. v < m) vector vector_maxes"

text \<open>The row-major position of an index tuple (used in the proofs only).\<close>

fun flat_pos :: "nat list \<Rightarrow> nat list \<Rightarrow> nat" where
  "flat_pos (v # vs) (m # ms) = v * prod_list ms + flat_pos vs ms"
| "flat_pos _ _ = 0"

subsection \<open>Random number generators and the floating-point product\<close>

text \<open>
  The environment draws its random numbers from numpy's generator (\<^verbatim>\<open>self.np_random\<close>) and
  from the generators held by the gym spaces (\<^verbatim>\<open>DiscreteExtended\<close>); neither library is part
  of the source. The state of a generator is a value of an arbitrary type \<open>'g\<close>, and the
  operations the environment calls are the fields of a record: each takes the generator and
  returns the draw with the generator after the draw. An operation that the library lets
  raise returns \<open>error + \<dots>\<close>.

  The record also holds the one arithmetic operation of the machine whose rounding decides a
  count: the product \<^verbatim>\<open>density * n\<close> of a Python float and an integer (lines 435, 535 and
  554), which converts the integer to a double and rounds the product of the two doubles to
  the nearest double. \<open>float_times_int ops d n\<close> is the real number that this double
  denotes. It is not the real product: \<^verbatim>\<open>0.7 * 10\<close> is the double 7.0, while the double
  0.7 is less than 7/10.
\<close>

record 'g samplers =
  np_random_seed :: "nat \<Rightarrow> 'g"
    \<comment> \<open>\<^verbatim>\<open>gym.utils.seeding.np_random(seed)\<close>\<close>
  randint :: "'g \<Rightarrow> nat \<times> 'g"
    \<comment> \<open>\<^verbatim>\<open>np_random.randint(sys.maxsize)\<close>\<close>
  choice_no_replace :: "int \<Rightarrow> int \<Rightarrow> 'g \<Rightarrow> error + (int list \<times> 'g)"
    \<comment> \<open>\<^verbatim>\<open>np_random.choice(a, size=size, replace=False)\<close>\<close>
  choice_p :: "nat \<Rightarrow> real list \<Rightarrow> 'g \<Rightarrow> error + (nat \<times> 'g)"
    \<comment> \<open>\<^verbatim>\<open>np_random.choice(n, p=p)\<close>\<close>
  space_seed :: "nat \<Rightarrow> 'g"
    \<comment> \<open>the generator of \<^verbatim>\<open>DiscreteExtended(n, seed=seed)\<close>\<close>
  sample :: "nat \<Rightarrow> 'g \<Rightarrow> nat \<times> 'g"
    \<comment> \<open>\<^verbatim>\<open>DiscreteExtended(n).sample()\<close>\<close>
  sample_no_replace :: "nat \<Rightarrow> nat \<Rightarrow> 'g \<Rightarrow> error + (nat list \<times> 'g)"
    \<comment> \<open>\<^verbatim>\<open>DiscreteExtended(n).sample(size=size, replace=False)\<close>\<close>
  sample_prob :: "nat \<Rightarrow> real list \<Rightarrow> 'g \<Rightarrow> error + (nat \<times> 'g)"
    \<comment> \<open>\<^verbatim>\<open>DiscreteExtended(n).sample(prob=prob)\<close>\<close>
  float_times_int :: "real \<Rightarrow> int \<Rightarrow> real"
    \<comment> \<open>the double \<^verbatim>\<open>d * n\<close> for a float \<^verbatim>\<open>d\<close> and an integer \<^verbatim>\<open>n\<close>\<close>

text \<open>
  The contract of sampling without replacement from \<open>Discrete(n)\<close>: \<open>size\<close> distinct draws,
  each a member of the space.
\<close>

definition sample_no_replace_ok :: "'g samplers \<Rightarrow> bool" where
  "sample_no_replace_ok ops \<longleftrightarrow>
     (\<forall>n size g row g'. sample_no_replace ops n size g = Inr (row, g') \<longrightarrow>
        length row = size \<and> distinct row \<and> (\<forall>x \<in> set row. x < n))"

text \<open>
  The contract of the floating-point product: rounding to the nearest double is monotone, and
  0 and the integers up to \<open>2^53\<close> are doubles. So the product of a float that is not negative
  and an integer that is not negative is not negative, and the product of a float of at most
  1 and an integer between 0 and \<open>2^53\<close> is at most that integer.
\<close>

definition float_times_int_ok :: "'g samplers \<Rightarrow> bool" where
  "float_times_int_ok ops \<longleftrightarrow>
     (\<forall>d n. 0 \<le> d \<longrightarrow> 0 \<le> n \<longrightarrow> 0 \<le> float_times_int ops d n) \<and>
     (\<forall>d n. d \<le> 1 \<longrightarrow> 0 \<le> n \<longrightarrow> n \<le> 2 ^ 53 \<longrightarrow> float_times_int ops d n \<le> real_of_int n)"

subsection \<open>Configuration and environment\<close>

text \<open>
  The configuration dictionary of a discrete environment whose \<^verbatim>\<open>state_space_size\<close> and
  \<^verbatim>\<open>action_space_size\<close> are integers (a simple discrete environment: every dimension is
  relevant, \<^verbatim>\<open>irrelevant_state_space_size\<close> is 0) and that has no image representations.
  The record holds the values after \<^verbatim>\<open>__init__\<close> has filled in the defaults of the optional
  keys (\<open>delay\<close> 0, \<open>sequence_length\<close> 1, \<open>reward_scale\<close> 1, \<open>reward_shift\<close> 0,
  \<open>term_state_reward\<close> 0); \<open>transition_noise\<close> and \<open>reward_noise\<close> are \<open>None\<close> when the key is
  absent. Floating-point numbers are modelled as reals. The seed is an integer or a
  dictionary of seeds; a configuration without a seed, which seeds the generator from the
  operating system, is not part of the embedding.
\<close>

record seed_dict =
  seed_env :: nat
  seed_relevant_state_space :: nat
  seed_relevant_action_space :: nat
  seed_irrelevant_state_space :: nat
  seed_irrelevant_action_space :: nat
  seed_state_space :: nat
  seed_action_space :: nat
  seed_image_representations :: nat

datatype seed_config = SeedInt nat | SeedDict seed_dict

record 'g config =
  seed :: seed_config
  state_space_size :: nat
  action_space_size :: nat
  generate_random_mdp :: bool
  delay :: nat
  sequence_length :: nat
  repeats_in_sequences :: bool
  reward_scale :: real
  reward_shift :: real
  reward_density :: real
  term_state_reward :: real
  make_denser :: bool
  terminal_state_density :: real
  completely_connected :: bool
  transition_noise :: "real option"
  reward_noise :: "('g \<Rightarrow> real \<times> 'g) option"

text \<open>
  The attributes of an \<^verbatim>\<open>RLToyEnv\<close> object. \<open>transition_table\<close> is
  \<^verbatim>\<open>config["transition_function"]\<close>, \<open>is_terminal_state_array\<close> is
  \<^verbatim>\<open>config["is_terminal_state"]\<close>, \<open>relevant_observation_space\<close> is the generator of the
  space of that name. An entry of the augmented state is \<open>None\<close> for \<^verbatim>\<open>np.nan\<close>.
\<close>

record 'g env =
  config :: "'g config"
  seed_dict_of :: seed_dict
  np_random :: 'g
  relevant_observation_space :: 'g
  num_terminal_states :: int
  is_terminal_state_array :: "int list"
  relevant_init_state_dist :: "real list"
  transition_table :: "nat list list"
  specific_sequences :: "nat list list list"
  total_episodes :: nat
  curr_state :: nat
  augmented_state :: "nat option list"
  possible_remaining_sequences :: "nat list list list"
  reached_terminal :: bool
  total_abs_noise_in_reward_episode :: real
  total_reward_episode :: real
  total_noisy_transitions_episode :: nat
  total_transitions_episode :: nat

text \<open>\<^verbatim>\<open>self.augmented_state_length\<close>, set once in \<^verbatim>\<open>__init__\<close> (line 359).\<close>

definition augmented_state_length :: "'g env \<Rightarrow> nat" where
  "augmented_state_length e = sequence_length (config e) + delay (config e) + 1"

subsection \<open>Seeds\<close>

text \<open>
  \<^verbatim>\<open>__init__\<close>, lines 206 to 220: with an integer seed the generator of the environment is
  seeded with it and seven sub-seeds are drawn from it one after the other; with a dictionary
  the generator is seeded with its entry \<^verbatim>\<open>"env"\<close>.
\<close>

definition gen_seeds :: "'g samplers \<Rightarrow> seed_config \<Rightarrow> seed_dict \<times> 'g" where
  "gen_seeds ops sc =
     (case sc of
        SeedDict d \<Rightarrow> (d, np_random_seed ops (seed_env d))
      | SeedInt s \<Rightarrow>
          (let g0 = np_random_seed ops s;
               (s1, g1) = randint ops g0;
               (s2, g2) = randint ops g1;
               (s3, g3) = randint ops g2;
               (s4, g4) = randint ops g3;
               (s5, g5) = randint ops g4;
               (s6, g6) = randint ops g5;
               (s7, g7) = randint ops g6
           in (\<lparr>seed_env = s, seed_relevant_state_space = s1, seed_relevant_action_space = s2,
                 seed_irrelevant_state_space = s3, seed_irrelevant_action_space = s4,
                 seed_state_space = s5, seed_action_space = s6,
                 seed_image_representations = s7\<rparr>, g7)))"

subsection \<open>Terminal states and the initial state distribution\<close>

text \<open>
  Python's \<^verbatim>\<open>int(x)\<close> of a float: truncation towards zero. It is exact on every double, so
  it is a function of the real number that the double denotes.
\<close>

definition int_trunc :: "real \<Rightarrow> int" where
  "int_trunc x = (if 0 \<le> x then \<lfloor>x\<rfloor> else \<lceil>x\<rceil>)"

text \<open>
  \<^verbatim>\<open>init_terminal_states\<close>, discrete branch: the number of terminal states, the array
  \<^verbatim>\<open>config["is_terminal_state"]\<close>, and whether the warning was issued.
\<close>

definition init_terminal_states :: "'g samplers \<Rightarrow> 'g config \<Rightarrow> int \<times> int list \<times> bool" where
  "init_terminal_states ops cfg =
     (let num0 = int_trunc (float_times_int ops (terminal_state_density cfg)
                              (int (state_space_size cfg)));
          warned = (num0 = 0);
          num = (if num0 = 0 then 1 else num0)
      in (num, map (\<lambda>i. int (state_space_size cfg) - 1 - int i) [0..<nat num], warned))"

text \<open>\<^verbatim>\<open>self.is_terminal_state = lambda s: s in self.config["is_terminal_state"]\<close>\<close>

definition is_terminal_state :: "int list \<Rightarrow> nat option \<Rightarrow> bool" where
  "is_terminal_state arr s = (case s of None \<Rightarrow> False | Some x \<Rightarrow> int x \<in> set arr)"

text \<open>\<^verbatim>\<open>init_init_state_dist\<close>: uniform over the non-terminal states, 0 on the terminal ones.\<close>

definition init_init_state_dist :: "nat \<Rightarrow> int \<Rightarrow> real list" where
  "init_init_state_dist n nts =
     (let non_term = int n - nts
      in replicate (nat non_term) (1 / real_of_int non_term) @ replicate (nat nts) 0)"

subsection \<open>The transition table\<close>

text \<open>
  Assigning a sampled array to a row of \<open>m\<close> cells: numpy takes an array of \<open>m\<close> elements,
  broadcasts an array of one element and raises ValueError otherwise.
\<close>

definition assign_row :: "nat \<Rightarrow> nat list \<Rightarrow> error + nat list" where
  "assign_row m row =
     (if length row = m then Inr row
      else if length row = 1 then Inr (replicate m (hd row))
      else Inl ValueError)"

text \<open>\<^verbatim>\<open>for s in range(n): T[s] = relevant_observation_space.sample(size=m, replace=False)\<close>\<close>

fun sample_rows :: "'g samplers \<Rightarrow> nat \<Rightarrow> nat \<Rightarrow> nat \<Rightarrow> 'g \<Rightarrow> error + (nat list list \<times> 'g)" where
  "sample_rows ops n m 0 g = Inr ([], g)"
| "sample_rows ops n m (Suc c) g =
     (case sample_no_replace ops n m g of
        Inl e \<Rightarrow> Inl e
      | Inr (row, g1) \<Rightarrow>
          (case assign_row m row of
             Inl e \<Rightarrow> Inl e
           | Inr row' \<Rightarrow>
               (case sample_rows ops n m c g1 of
                  Inl e \<Rightarrow> Inl e
                | Inr (rows, g2) \<Rightarrow> Inr (row' # rows, g2))))"

text \<open>\<^verbatim>\<open>for a in range(m): T[s, a] = relevant_observation_space.sample()\<close>\<close>

fun sample_cells :: "'g samplers \<Rightarrow> nat \<Rightarrow> nat \<Rightarrow> 'g \<Rightarrow> nat list \<times> 'g" where
  "sample_cells ops n 0 g = ([], g)"
| "sample_cells ops n (Suc c) g =
     (let (x, g1) = sample ops n g; (xs, g2) = sample_cells ops n c g1 in (x # xs, g2))"

fun sample_table :: "'g samplers \<Rightarrow> nat \<Rightarrow> nat \<Rightarrow> nat \<Rightarrow> 'g \<Rightarrow> nat list list \<times> 'g" where
  "sample_table ops n m 0 g = ([], g)"
| "sample_table ops n m (Suc c) g =
     (let (row, g1) = sample_cells ops n m g; (rows, g2) = sample_table ops n m c g1
      in (row # rows, g2))"

text \<open>\<^verbatim>\<open>T[s, a] = v\<close>\<close>

definition set_cell :: "nat list list \<Rightarrow> nat \<Rightarrow> nat \<Rightarrow> nat \<Rightarrow> nat list list" where
  "set_cell T s a v = T[s := (T ! s)[a := v]]"

text \<open>
  \<^verbatim>\<open>for s in range(n - num_terminal_states, n): for a in range(m): T[s, a] = s\<close>.
  The assertion \<^verbatim>\<open>is_terminal_state(s) == True\<close> inside the loop holds for every \<open>s\<close> of this
  range (lemma \<open>terminal_range_is_terminal\<close>). The lower end of the range is non-negative
  when \<^verbatim>\<open>terminal_state_density\<close> is at most 1, its documented domain; the embedding does
  not follow numpy's wrap-around of a negative row index beyond that domain.
\<close>

definition set_terminal_rows :: "nat \<Rightarrow> nat \<Rightarrow> int \<Rightarrow> nat list list \<Rightarrow> nat list list" where
  "set_terminal_rows n m nts T =
     fold (\<lambda>s T. fold (\<lambda>a T. set_cell T s a s) [0..<m] T) [nat (int n - nts)..<n] T"

text \<open>
  \<^verbatim>\<open>init_transition_function\<close>, discrete branch (no irrelevant part). Every cell of the
  table is assigned by one of the two sampling loops, so the initial filling with -1 does not
  show. The \<^verbatim>\<open>print\<close> after the loops reads \<^verbatim>\<open>T[0, 0]\<close>, which raises IndexError on an
  empty table.
\<close>

definition init_transition_function ::
  "'g samplers \<Rightarrow> 'g config \<Rightarrow> int \<Rightarrow> 'g \<Rightarrow> error + (nat list list \<times> 'g)" where
  "init_transition_function ops cfg nts g =
     (let n = state_space_size cfg; m = action_space_size cfg;
          sampled = (if completely_connected cfg then sample_rows ops n m n g
                     else Inr (sample_table ops n m n g))
      in case sampled of
           Inl e \<Rightarrow> Inl e
         | Inr (T, g') \<Rightarrow>
             if n = 0 \<or> m = 0 then Inl IndexError
             else Inr (set_terminal_rows n m nts T, g'))"

subsection \<open>The rewardable sequences\<close>

text \<open>
  numpy computes \<^verbatim>\<open>np.prod\<close> of a list of integers in 64-bit signed arithmetic: the result
  is the product reduced into the range from \<open>-2^63\<close> to \<open>2^63 - 1\<close>.
\<close>

definition wrap64 :: "int \<Rightarrow> int" where
  "wrap64 x = (x + 2 ^ 63) mod 2 ^ 64 - 2 ^ 63"

text \<open>A Python list index: a negative index counts from the end, an index out of range raises.\<close>

definition py_index :: "int \<Rightarrow> nat \<Rightarrow> error + nat" where
  "py_index i len =
     (if 0 \<le> i \<and> i < int len then Inr (nat i)
      else if - int len \<le> i \<and> i < 0 then Inr (nat (int len + i))
      else Inl IndexError)"

text \<open>The remainder of a numpy integer: 0 for the divisor 0 (with a warning), else Python's.\<close>

definition np_mod :: "int \<Rightarrow> int \<Rightarrow> int" where
  "np_mod a b = (if b = 0 then 0 else a mod b)"

definition np_floordiv :: "int \<Rightarrow> int \<Rightarrow> int" where
  "np_floordiv a b = (if b = 0 then 0 else a div b)"

text \<open>
  With \<^verbatim>\<open>repeats_in_sequences\<close>: the digits of the sequence number in base
  \<^verbatim>\<open>non_term_relevant_state_space_size\<close>, lowest first, until the sequence has
  \<^verbatim>\<open>sequence_length\<close> elements.
\<close>

fun base_digits :: "int \<Rightarrow> nat \<Rightarrow> int \<Rightarrow> int list" where
  "base_digits b 0 num = []"
| "base_digits b (Suc len) num = np_mod num b # base_digits b len (np_floordiv num b)"

text \<open>
  Without repeats: \<^verbatim>\<open>for j in permutations[::-1]\<close> takes the digit \<^verbatim>\<open>curr_permutation % j\<close>,
  appends the remaining state at that position to the sequence and deletes it from
  \<^verbatim>\<open>curr_rem_digits\<close>.
\<close>

fun decode_permutation :: "int list \<Rightarrow> int \<Rightarrow> nat list \<Rightarrow> error + nat list" where
  "decode_permutation [] curr_permutation curr_rem_digits = Inr []"
| "decode_permutation (j # js) curr_permutation curr_rem_digits =
     (case py_index (np_mod curr_permutation j) (length curr_rem_digits) of
        Inl e \<Rightarrow> Inl e
      | Inr r \<Rightarrow>
          (case decode_permutation js (np_floordiv curr_permutation j)
                  (take r curr_rem_digits @ drop (Suc r) curr_rem_digits) of
             Inl e \<Rightarrow> Inl e
           | Inr seq \<Rightarrow> Inr (curr_rem_digits ! r # seq)))"

text \<open>
  \<^verbatim>\<open>for i in range(num_specific_sequences)\<close>: decode \<^verbatim>\<open>sel_sequence_nums[i]\<close>, count a clash
  when the sequence is already in the list, append it. The arguments are the numbers still to
  decode, the sequences so far and the clashes so far.
\<close>

fun gen_sequences ::
  "int list \<Rightarrow> nat \<Rightarrow> int list \<Rightarrow> nat list list \<Rightarrow> nat \<Rightarrow> error + (nat list list \<times> nat)" where
  "gen_sequences perms non_term [] seqs clashes = Inr (seqs, clashes)"
| "gen_sequences perms non_term (c # cs) seqs clashes =
     (case decode_permutation (rev perms) c [0..<non_term] of
        Inl e \<Rightarrow> Inl e
      | Inr seq \<Rightarrow>
          gen_sequences perms non_term cs (seqs @ [seq])
            (if seq \<in> set seqs then Suc clashes else clashes))"

text \<open>
  \<^verbatim>\<open>init_reward_function\<close>, discrete branch. It returns \<^verbatim>\<open>self.specific_sequences\<close> (a list of
  \<^verbatim>\<open>sequence_length\<close> lists, of which the last holds the rewardable sequences) and the
  generator. The loop over \<^verbatim>\<open>range(num_specific_sequences)\<close> reads
  \<^verbatim>\<open>sel_sequence_nums[i]\<close>, which raises IndexError on an array that is too short.

  In the branch with repeats, the statement after the loop, line 548, evaluates
  \<^verbatim>\<open>str("Out of", num_possible_sequences)\<close> as an argument of \<^verbatim>\<open>logger.info\<close>: \<^verbatim>\<open>str\<close> with
  a second argument that is not a string raises TypeError, whatever the log level, so this
  branch never returns.
\<close>

definition init_reward_function ::
  "'g samplers \<Rightarrow> 'g config \<Rightarrow> int \<Rightarrow> 'g \<Rightarrow> error + (nat list list list \<times> 'g)" where
  "init_reward_function ops cfg nts g =
     (let non_term = int (state_space_size cfg) - nts;
          k = sequence_length cfg
      in if repeats_in_sequences cfg then
           (let num_possible_sequences = non_term ^ k;
                num_specific_sequences =
                  int_trunc (float_times_int ops (reward_density cfg) num_possible_sequences)
            in case choice_no_replace ops num_possible_sequences num_specific_sequences g of
                 Inl e \<Rightarrow> Inl e
               | Inr (sel_sequence_nums, g') \<Rightarrow>
                   if int (length sel_sequence_nums) < num_specific_sequences then Inl IndexError
                   else (let seqs = map (base_digits non_term k)
                                      (take (nat num_specific_sequences) sel_sequence_nums)
                         in Inl TypeError))
         else
           (let permutations = [non_term + 1 - int k..non_term];
                num_possible_permutations = wrap64 (prod_list permutations);
                num_specific_sequences =
                  int_trunc (float_times_int ops (reward_density cfg) num_possible_permutations)
            in case choice_no_replace ops num_possible_permutations num_specific_sequences g of
                 Inl e \<Rightarrow> Inl e
               | Inr (sel_sequence_nums, g') \<Rightarrow>
                   if int (length sel_sequence_nums) < num_specific_sequences then Inl IndexError
                   else
                     (case gen_sequences permutations (nat non_term)
                             (take (nat num_specific_sequences) sel_sequence_nums) [] 0 of
                        Inl e \<Rightarrow> Inl e
                      | Inr (seqs, total_clashes) \<Rightarrow>
                          if total_clashes \<noteq> 0 then Inl AssertionError
                          else Inr (replicate (k - 1) [] @ [seqs], g'))))"

text \<open>The number of \<open>k\<close>-permutations of \<open>n\<close> elements, \<open>n (n - 1) \<dots> (n - k + 1)\<close>.\<close>

definition num_permutations :: "nat \<Rightarrow> nat \<Rightarrow> nat" where
  "num_permutations n k = (\<Prod>i<k. n - i)"

text \<open>The rewardable sequences: \<^verbatim>\<open>self.specific_sequences[self.sequence_length - 1]\<close>.\<close>

definition rewardable_sequences :: "'g env \<Rightarrow> nat list list" where
  "rewardable_sequences e = specific_sequences e ! (sequence_length (config e) - 1)"

text \<open>
  The number of possible sequences as the specification words it: with \<open>S\<close> the number of
  non-terminal states and \<open>k\<close> the sequence length, \<open>S ^ k\<close> when repeats are allowed and the
  number of \<open>k\<close>-permutations of \<open>S\<close> states otherwise.
\<close>

definition spec_num_possible_sequences :: "'g env \<Rightarrow> nat" where
  "spec_num_possible_sequences e =
     (let non_term = state_space_size (config e) - nat (num_terminal_states e);
          k = sequence_length (config e)
      in if repeats_in_sequences (config e) then non_term ^ k else num_permutations non_term k)"

subsection \<open>Reset\<close>

text \<open>A Python slice \<^verbatim>\<open>xs[i:j]\<close> with non-negative bounds.\<close>

definition py_slice :: "nat \<Rightarrow> nat \<Rightarrow> 'a list \<Rightarrow> 'a list" where
  "py_slice i j xs = take (j - i) (drop i xs)"

text \<open>
  \<^verbatim>\<open>for k in range(sequence_length): for l in range(len(self.specific_sequences[k]))\<close>: the
  sequences of every length, in this order.
\<close>

definition all_specific_sequences :: "'g env \<Rightarrow> nat list list" where
  "all_specific_sequences e =
     concat (map (\<lambda>k. specific_sequences e ! k) [0..<sequence_length (config e)])"

text \<open>
  \<^verbatim>\<open>reset\<close>, discrete branch. The start state is drawn with the initial state distribution;
  the augmented state is padded with \<^verbatim>\<open>np.nan\<close>; with \<^verbatim>\<open>make_denser\<close>,
  \<^verbatim>\<open>possible_remaining_sequences[0]\<close> receives the first state of every rewardable sequence
  (reading \<^verbatim>\<open>specific_sequences[k]\<close> raises IndexError on a list that is too short).
\<close>

definition reset :: "'g samplers \<Rightarrow> 'g env \<Rightarrow> error + (nat \<times> 'g env)" where
  "reset ops e =
     (case choice_p ops (state_space_size (config e)) (relevant_init_state_dist e) (np_random e) of
        Inl err \<Rightarrow> Inl err
      | Inr (curr_state_relevant, g') \<Rightarrow>
          if make_denser (config e) \<and> length (specific_sequences e) < sequence_length (config e)
          then Inl IndexError
          else
          Inr (curr_state_relevant,
               e\<lparr>np_random := g',
                 total_episodes := total_episodes e + 1,
                 curr_state := curr_state_relevant,
                 augmented_state :=
                   replicate (augmented_state_length e - 1) None @ [Some curr_state_relevant],
                 reached_terminal := False,
                 total_abs_noise_in_reward_episode := 0,
                 total_reward_episode := 0,
                 total_noisy_transitions_episode := 0,
                 total_transitions_episode := 0,
                 possible_remaining_sequences :=
                   (if make_denser (config e)
                    then (if sequence_length (config e) = 0 then []
                          else map (take 1) (all_specific_sequences e)
                                 # replicate (sequence_length (config e) - 1) [])
                    else possible_remaining_sequences e)\<rparr>))"

subsection \<open>The transition function\<close>

text \<open>
  \<^verbatim>\<open>transition_function\<close>, discrete branch of a simple discrete environment: the next state
  is read from the table (IndexError for a state or an action outside the table); with
  \<^verbatim>\<open>transition_noise\<close> it is drawn again with probability \<open>1 - p\<close> on the table's next
  state and \<open>p / (n - 1)\<close> on each other state (\<open>noisy_next_state\<close>, lines 631 to 641, where
  writing \<^verbatim>\<open>probs[next_state]\<close> raises IndexError for a next state outside the space).
  Unless \<^verbatim>\<open>only_query\<close>, the oldest entry of the augmented state is deleted and the next
  state appended.
\<close>

definition noisy_next_state ::
  "'g samplers \<Rightarrow> 'g env \<Rightarrow> nat \<Rightarrow> error + (nat \<times> 'g env)" where
  "noisy_next_state ops e next_state =
     (let n = state_space_size (config e)
      in case transition_noise (config e) of
           None \<Rightarrow> Inr (next_state, e)
         | Some p \<Rightarrow>
             if \<not> next_state < n then Inl IndexError
             else
               (let probs = (replicate n (p / (real n - 1)))[next_state := 1 - p]
                in case sample_prob ops n probs (relevant_observation_space e) of
                     Inl err \<Rightarrow> Inl err
                   | Inr (new_next_state, g') \<Rightarrow>
                       Inr (new_next_state,
                            e\<lparr>relevant_observation_space := g',
                              total_noisy_transitions_episode :=
                                (if next_state \<noteq> new_next_state
                                 then total_noisy_transitions_episode e + 1
                                 else total_noisy_transitions_episode e)\<rparr>)))"

definition transition_function ::
  "'g samplers \<Rightarrow> 'g env \<Rightarrow> nat \<Rightarrow> nat \<Rightarrow> bool \<Rightarrow> error + (nat \<times> 'g env)" where
  "transition_function ops e state action only_query =
     (let T = transition_table e
      in if \<not> (state < length T \<and> action < length (T ! state)) then Inl IndexError
         else
           (case noisy_next_state ops e (T ! state ! action) of
              Inl err \<Rightarrow> Inl err
            | Inr (next_state, e1) \<Rightarrow>
                if only_query then Inr (next_state, e1)
                else if augmented_state e1 = [] then Inl IndexError
                else Inr (next_state,
                          e1\<lparr>augmented_state := tl (augmented_state e1) @ [Some next_state],
                             total_transitions_episode := total_transitions_episode e1 + 1\<rparr>)))"

subsection \<open>The reward function\<close>

text \<open>
  The first argument of \<^verbatim>\<open>reward_function\<close>: \<^verbatim>\<open>step\<close> passes the current state, a caller
  with \<^verbatim>\<open>only_query\<close> passes a list of states.
\<close>

datatype state_arg = OneState nat | StateList "nat option list"

text \<open>
  A state sequence of the environment against a rewardable sequence: the entries of the
  augmented state are states or \<^verbatim>\<open>np.nan\<close>, which differs from every state.
\<close>

definition as_states :: "nat list \<Rightarrow> nat option list" where
  "as_states seq = map Some seq"

text \<open>
  Sparse reward, lines 766 to 773: \<^verbatim>\<open>reward_scale\<close> when the slice of the state sequence from
  1 to \<^verbatim>\<open>augmented_state_length - delay\<close> is among the rewardable sequences, the entry \<open>i\<close> of
  \<^verbatim>\<open>specific_sequences\<close> (\<open>i\<close> is the position that the Python index
  \<^verbatim>\<open>sequence_length - 1\<close> stands for).
\<close>

definition sparse_reward :: "'g env \<Rightarrow> nat option list \<Rightarrow> nat \<Rightarrow> real" where
  "sparse_reward e state_considered i =
     (if py_slice 1 (augmented_state_length e - delay (config e)) state_considered
           \<in> set (map as_states (specific_sequences e ! i))
      then 0 + reward_scale (config e) else 0)"

text \<open>
  Dense reward, lines 775 to 782: for \<open>j\<close> from 1 to \<^verbatim>\<open>sequence_length\<close>, the sequence of the
  \<open>j\<close> states that end \<^verbatim>\<open>delay\<close> steps ago adds its number of occurrences in
  \<^verbatim>\<open>possible_remaining_sequences[j - 1]\<close> times \<^verbatim>\<open>reward_scale * j / sequence_length\<close>.
\<close>

definition curr_seq_being_checked :: "'g env \<Rightarrow> nat option list \<Rightarrow> nat \<Rightarrow> nat option list" where
  "curr_seq_being_checked e state_considered j =
     py_slice (augmented_state_length e - j - delay (config e))
              (augmented_state_length e - delay (config e)) state_considered"

definition dense_reward :: "'g env \<Rightarrow> nat option list \<Rightarrow> real" where
  "dense_reward e state_considered =
     fold (\<lambda>j reward.
             let c = curr_seq_being_checked e state_considered j;
                 candidates = map as_states (possible_remaining_sequences e ! (j - 1))
             in if c \<in> set candidates
                then reward + real (count_list candidates c) * reward_scale (config e) * real j
                              / real (sequence_length (config e))
                else reward)
          [1..<sequence_length (config e) + 1] 0"

text \<open>
  Lines 784 to 790: \<^verbatim>\<open>possible_remaining_sequences[j]\<close> is rebuilt with the prefix of length
  \<open>j + 1\<close> of every rewardable sequence whose prefix of length \<open>j\<close> is the sequence of the \<open>j\<close>
  states that end \<^verbatim>\<open>delay\<close> steps ago.
\<close>

definition rebuild_possible_remaining_sequences ::
  "'g env \<Rightarrow> nat option list \<Rightarrow> nat list list list" where
  "rebuild_possible_remaining_sequences e state_considered =
     map (\<lambda>j. map (take (j + 1))
                (filter (\<lambda>seq. curr_seq_being_checked e state_considered j = as_states (take j seq))
                        (all_specific_sequences e)))
         [0..<sequence_length (config e)]"

text \<open>
  \<^verbatim>\<open>reward_function\<close>, discrete branch of a simple discrete environment. With
  \<^verbatim>\<open>only_query\<close> the two assertions on the argument are checked; the lists read by index
  (\<^verbatim>\<open>specific_sequences\<close>, \<^verbatim>\<open>possible_remaining_sequences\<close>) raise IndexError when too short.
  The result is the reward returned and the environment, in which the reward before noise
  and shift has been added to \<^verbatim>\<open>total_reward_episode\<close>.
\<close>

text \<open>
  Line 840: \<^verbatim>\<open>self.config["reward_noise"](self.np_random) if "reward_noise" in self.config else 0\<close>,
  with the generator after the draw.
\<close>

definition draw_reward_noise :: "'g env \<Rightarrow> real \<times> 'g" where
  "draw_reward_noise e =
     (case reward_noise (config e) of
        None \<Rightarrow> (0, np_random e)
      | Some f \<Rightarrow> f (np_random e))"

definition reward_function ::
  "'g env \<Rightarrow> state_arg \<Rightarrow> nat \<Rightarrow> bool \<Rightarrow> error + (real \<times> 'g env)" where
  "reward_function e state action only_query =
     (let k = sequence_length (config e);
          considered =
            (if only_query then
               (case state of
                  OneState s \<Rightarrow> Inl AssertionError
                | StateList l \<Rightarrow>
                    if length l = augmented_state_length e then Inr l else Inl AssertionError)
             else Inr (augmented_state e))
      in case considered of
           Inl err \<Rightarrow> Inl err
         | Inr state_considered \<Rightarrow>
             if \<not> make_denser (config e)
                \<and> py_index (int k - 1) (length (specific_sequences e)) = Inl IndexError
             then Inl IndexError
             else if make_denser (config e)
                \<and> (length (possible_remaining_sequences e) < k \<or> length (specific_sequences e) < k)
             then Inl IndexError
             else
               (let reward =
                      (if \<not> make_denser (config e)
                       then (case py_index (int k - 1) (length (specific_sequences e)) of
                               Inr i \<Rightarrow> sparse_reward e state_considered i
                             | Inl err \<Rightarrow> 0)
                       else dense_reward e state_considered);
                    e1 = (if \<not> make_denser (config e) then e
                          else e\<lparr>possible_remaining_sequences :=
                                   rebuild_possible_remaining_sequences e state_considered\<rparr>);
                    (noise_in_reward, g') = draw_reward_noise e1
                in Inr (reward + noise_in_reward + reward_shift (config e),
                        e1\<lparr>np_random := g',
                           total_abs_noise_in_reward_episode :=
                             total_abs_noise_in_reward_episode e1 + \<bar>noise_in_reward\<bar>,
                           total_reward_episode := total_reward_episode e1 + reward\<rparr>)))"

subsection \<open>Step\<close>

text \<open>
  \<^verbatim>\<open>step\<close>: the transition, then the reward, then the terminal test on the last entry of the
  augmented state; a terminal step adds \<^verbatim>\<open>term_state_reward * reward_scale\<close>. The result is
  the triple of next state, reward and \<^verbatim>\<open>done\<close> (the fourth component of the Python result,
  the augmented state, is a field of the environment returned with it). There is no test of
  whether the episode has ended before.
\<close>

definition step ::
  "'g samplers \<Rightarrow> 'g env \<Rightarrow> nat \<Rightarrow> bool \<Rightarrow> error + ((nat \<times> real \<times> bool) \<times> 'g env)" where
  "step ops e action only_query =
     (case transition_function ops e (curr_state e) action only_query of
        Inl err \<Rightarrow> Inl err
      | Inr (s', e1) \<Rightarrow>
          (case reward_function (e1\<lparr>curr_state := s'\<rparr>) (OneState s') action only_query of
             Inl err \<Rightarrow> Inl err
           | Inr (reward, e2) \<Rightarrow>
               if augmented_state e2 = [] then Inl IndexError
               else
                 (let is_done = is_terminal_state (is_terminal_state_array e2)
                                  (last (augmented_state e2)) \<or> reached_terminal e2;
                      reward' = (if is_done
                                 then reward + term_state_reward (config e2) * reward_scale (config e2)
                                 else reward)
                  in Inr ((s', reward', is_done), e2))))"

text \<open>
  An episode driven by a finite sequence of actions, as in the loop at the end of the source
  file: \<^verbatim>\<open>step\<close> for each action in turn, collecting the results; the first exception ends
  the run.
\<close>

fun run ::
  "'g samplers \<Rightarrow> 'g env \<Rightarrow> nat list \<Rightarrow> error + ((nat \<times> real \<times> bool) list \<times> 'g env)" where
  "run ops e [] = Inr ([], e)"
| "run ops e (a # as) =
     (case step ops e a False of
        Inl err \<Rightarrow> Inl err
      | Inr (out, e1) \<Rightarrow>
          (case run ops e1 as of
             Inl err \<Rightarrow> Inl err
           | Inr (outs, e2) \<Rightarrow> Inr (out # outs, e2)))"

subsection \<open>Construction\<close>

text \<open>
  \<^verbatim>\<open>__init__\<close> for a simple discrete environment: the seeds, the assertions on the
  configuration, the generator of the relevant observation space, then, in this order,
  \<^verbatim>\<open>init_terminal_states\<close>, \<^verbatim>\<open>init_init_state_dist\<close>, \<^verbatim>\<open>init_transition_function\<close>,
  \<^verbatim>\<open>init_reward_function\<close> and \<^verbatim>\<open>reset\<close>. Without \<^verbatim>\<open>generate_random_mdp\<close> the constructor
  calls \<^verbatim>\<open>sys.exit(1)\<close>.
\<close>

definition construct :: "'g samplers \<Rightarrow> 'g config \<Rightarrow> error + 'g env" where
  "construct ops cfg =
     (let (sd, g) = gen_seeds ops (seed cfg)
      in if sequence_length cfg = 0 then Inl AssertionError
         else if completely_connected cfg \<and> state_space_size cfg \<noteq> action_space_size cfg
         then Inl AssertionError
         else if \<not> generate_random_mdp cfg then Inl SystemExit
         else
           (let (nts, arr, warned) = init_terminal_states ops cfg;
                dist = init_init_state_dist (state_space_size cfg) nts
            in case init_transition_function ops cfg nts
                      (space_seed ops (seed_relevant_state_space sd)) of
                 Inl err \<Rightarrow> Inl err
               | Inr (T, gs) \<Rightarrow>
                   (case init_reward_function ops cfg nts g of
                      Inl err \<Rightarrow> Inl err
                    | Inr (seqs, g') \<Rightarrow>
                        (case reset ops
                                \<lparr>config = cfg, seed_dict_of = sd, np_random = g',
                                 relevant_observation_space = gs,
                                 num_terminal_states = nts, is_terminal_state_array = arr,
                                 relevant_init_state_dist = dist, transition_table = T,
                                 specific_sequences = seqs, total_episodes = 0, curr_state = 0,
                                 augmented_state = [], possible_remaining_sequences = [],
                                 reached_terminal = False,
                                 total_abs_noise_in_reward_episode = 0, total_reward_episode = 0,
                                 total_noisy_transitions_episode = 0,
                                 total_transitions_episode = 0\<rparr> of
                           Inl err \<Rightarrow> Inl err
                         | Inr (s0, e) \<Rightarrow> Inr e))))"

subsection \<open>A deterministic stand-in for the generators\<close>

text \<open>
  To run the definitions on concrete configurations, the generator is a counter. Sampling
  without replacement from \<open>Discrete(n)\<close> returns the first \<open>size\<close> states of a rotation of
  \<open>0, \<dots>, n - 1\<close>; \<^verbatim>\<open>np_random.choice\<close> without replacement returns \<open>0, \<dots>, size - 1\<close>; a
  draw with given probabilities returns the first state of positive probability. Each is a
  possible outcome of the library's sampler. They raise ValueError as the library does
  (a sample larger than the population, an empty population, a probability vector of the
  wrong length or without a positive entry).

  The floating-point product of the stand-in is the real product. The two agree wherever
  the real product of the two doubles is itself a double, and the stand-in is evaluated on
  such inputs only: the densities 0, 1/4, 1/2, 5/8 and 3/4 and integers below 25, whose
  products are multiples of 1/8 below 25.
\<close>

definition toy_samplers :: "nat samplers" where
  "toy_samplers =
     \<lparr>np_random_seed = (\<lambda>s. s),
      randint = (\<lambda>g. (g, Suc g)),
      choice_no_replace =
        (\<lambda>a size g. if a \<le> 0 \<or> size < 0 \<or> a < size then Inl ValueError
                     else Inr (map int [0..<nat size], Suc g)),
      choice_p =
        (\<lambda>n p g. if length p \<noteq> n \<or> \<not> (\<exists>x \<in> set p. 0 < x) then Inl ValueError
                  else Inr (length (takeWhile (\<lambda>x. \<not> 0 < x) p), Suc g)),
      space_seed = (\<lambda>s. s),
      sample = (\<lambda>n g. (g mod n, Suc g)),
      sample_no_replace =
        (\<lambda>n size g. if n < size then Inl ValueError
                     else Inr (take size (rotate (g mod n) [0..<n]), Suc g)),
      sample_prob =
        (\<lambda>n p g. if length p \<noteq> n \<or> \<not> (\<exists>x \<in> set p. 0 < x) then Inl ValueError
                  else Inr (length (takeWhile (\<lambda>x. \<not> 0 < x) p), Suc g)),
      float_times_int = (\<lambda>d n. d * real_of_int n)\<rparr>"

text \<open>
  A configuration with the given sizes and the other keys at the values of the example at
  the end of the source file (no noise, \<^verbatim>\<open>reward_scale\<close> 1).
\<close>

definition example_config :: "nat \<Rightarrow> nat \<Rightarrow> nat \<Rightarrow> nat \<Rightarrow> real \<Rightarrow> real \<Rightarrow> bool \<Rightarrow> bool \<Rightarrow> nat config" where
  "example_config n k d sd term_density rew_density cc denser =
     \<lparr>seed = SeedInt sd, state_space_size = n, action_space_size = n,
      generate_random_mdp = True, delay = d, sequence_length = k,
      repeats_in_sequences = False, reward_scale = 1, reward_shift = 0,
      reward_density = rew_density, term_state_reward = 0, make_denser = denser,
      terminal_state_density = term_density, completely_connected = cc,
      transition_noise = None, reward_noise = None\<rparr>"

subsection \<open>The transition function of a continuous environment\<close>











section \<open>Properties of the codec\<close>

lemma flat_pos_less:
  "list_all2 (\<lambda>v m. v < m) vs ms \<Longrightarrow> flat_pos vs ms < prod_list ms"
proof (induction vs ms rule: list_all2_induct)
  case Nil
  then show ?case by simp
next
  case (Cons v vs m ms)
  have "v * prod_list ms + flat_pos vs ms < v * prod_list ms + prod_list ms"
    using Cons.IH by simp
  also have "\<dots> = Suc v * prod_list ms" by simp
  also have "\<dots> \<le> m * prod_list ms"
    using Cons.hyps(1) by (intro mult_le_mono1) simp
  finally show ?case by simp
qed

lemma nd_index_block:
  "list_all2 (\<lambda>v m. v < m) vs ms \<Longrightarrow>
   nd_index [a..<a + prod_list ms] ms vs = Inr [a + flat_pos vs ms]"
proof (induction vs ms arbitrary: a rule: list_all2_induct)
  case Nil
  then show ?case by (simp add: upt_rec)
next
  case (Cons v vs m ms)
  let ?p = "prod_list ms"
  have le: "v * ?p + ?p \<le> m * ?p"
  proof -
    have "Suc v * ?p \<le> m * ?p" using Cons.hyps(1) by (intro mult_le_mono1) simp
    then show ?thesis by simp
  qed
  have "take ?p (drop (v * ?p) [a..<a + m * ?p]) = [a + v * ?p..<a + v * ?p + ?p]"
    using le by (simp add: take_upt add.commute add.left_commute)
  then show ?case
    using Cons.hyps(1) Cons.IH [of "a + v * ?p"] by (simp add: add.assoc)
qed

lemma encode_flat_pos:
  "in_bounds x maxes \<Longrightarrow>
   transform_multi_discrete_to_discrete x maxes = Inr [flat_pos x maxes]"
  using nd_index_block [of x maxes 0]
  by (simp add: transform_multi_discrete_to_discrete_def in_bounds_def)

lemma set_all_indices:
  "set (all_indices ms) = {vs. list_all2 (\<lambda>v m. v < m) vs ms}"
proof (induction ms)
  case Nil
  then show ?case by auto
next
  case (Cons m ms)
  show ?case
  proof (rule set_eqI)
    fix vs
    show "vs \<in> set (all_indices (m # ms)) \<longleftrightarrow> vs \<in> {vs. list_all2 (\<lambda>v m. v < m) vs (m # ms)}"
      using Cons.IH by (cases vs) (auto simp: list_all2_Cons2)
  qed
qed

lemma distinct_all_indices: "distinct (all_indices ms)"
proof (induction ms)
  case Nil
  then show ?case by simp
next
  case (Cons m ms)
  show ?case
  proof (cases "all_indices ms")
    case Nil
    have c: "concat (map (\<lambda>v. []) [0..<m]) = ([] :: nat list list)"
      by (induction m) simp_all
    show ?thesis by (simp add: Nil c)
  next
    case (Cons i is')
    have "distinct (concat (map (\<lambda>v. map ((#) v) (all_indices ms)) [0..<m]))"
    proof (rule distinct_concat)
      show "distinct (map (\<lambda>v. map ((#) v) (all_indices ms)) [0..<m])"
        using Cons by (auto simp: distinct_map inj_on_def)
    next
      fix ys assume "ys \<in> set (map (\<lambda>v. map ((#) v) (all_indices ms)) [0..<m])"
      then show "distinct ys" using Cons.IH by (auto simp: distinct_map)
    next
      fix ys zs
      assume "ys \<in> set (map (\<lambda>v. map ((#) v) (all_indices ms)) [0..<m])"
        "zs \<in> set (map (\<lambda>v. map ((#) v) (all_indices ms)) [0..<m])" "ys \<noteq> zs"
      then show "set ys \<inter> set zs = {}" by auto
    qed
    then show ?thesis by simp
  qed
qed

lemma flat_pos_inj:
  "list_all2 (\<lambda>v m. v < m) xs ms \<Longrightarrow> list_all2 (\<lambda>v m. v < m) ys ms \<Longrightarrow>
   flat_pos xs ms = flat_pos ys ms \<Longrightarrow> xs = ys"
proof (induction ms arbitrary: xs ys)
  case Nil
  then show ?case by simp
next
  case (Cons m ms)
  from Cons.prems(1) obtain v vs where xs: "xs = v # vs" "v < m" "list_all2 (\<lambda>v m. v < m) vs ms"
    by (auto simp: list_all2_Cons2)
  from Cons.prems(2) obtain w ws where ys: "ys = w # ws" "w < m" "list_all2 (\<lambda>v m. v < m) ws ms"
    by (auto simp: list_all2_Cons2)
  let ?p = "prod_list ms"
  have rv: "flat_pos vs ms < ?p" and rw: "flat_pos ws ms < ?p"
    using xs(3) ys(3) by (simp_all add: flat_pos_less)
  have eq: "v * ?p + flat_pos vs ms = w * ?p + flat_pos ws ms"
    using Cons.prems(3) xs(1) ys(1) by simp
  have "(v * ?p + flat_pos vs ms) div ?p = v" "(w * ?p + flat_pos ws ms) div ?p = w"
    using rv rw by simp_all
  with eq have vw: "v = w" by simp
  with eq have "flat_pos vs ms = flat_pos ws ms" by simp
  with Cons.IH [OF xs(3) ys(3)] have "vs = ws" by simp
  with vw xs(1) ys(1) show ?case by simp
qed

lemma flat_pos_surj:
  "k < prod_list ms \<Longrightarrow> \<exists>vs. list_all2 (\<lambda>v m. v < m) vs ms \<and> flat_pos vs ms = k"
proof (induction ms arbitrary: k)
  case Nil
  then show ?case by simp
next
  case (Cons m ms)
  let ?p = "prod_list ms"
  have k: "k < m * ?p" using Cons.prems by simp
  then have ppos: "0 < ?p" by (cases "?p = 0") auto
  have "k mod ?p < ?p" using ppos by simp
  from Cons.IH [OF this] obtain vs where
    vs: "list_all2 (\<lambda>v m. v < m) vs ms" "flat_pos vs ms = k mod ?p" by blast
  have "k div ?p < m" using k ppos by (simp add: less_mult_imp_div_less)
  then have "list_all2 (\<lambda>v m. v < m) ((k div ?p) # vs) (m # ms)
      \<and> flat_pos ((k div ?p) # vs) (m # ms) = k"
    using vs by simp
  then show ?case by blast
qed

lemma filter_unique:
  "distinct xs \<Longrightarrow> x \<in> set xs \<Longrightarrow> (\<And>y. y \<in> set xs \<Longrightarrow> P y \<longleftrightarrow> y = x) \<Longrightarrow>
   filter P xs = [x]"
proof (induction xs)
  case Nil
  then show ?case by simp
next
  case (Cons a xs)
  show ?case
  proof (cases "a = x")
    case True
    then have "x \<notin> set xs" using Cons.prems(1) by simp
    then have "filter P xs = []" using Cons.prems(3) by (auto simp: filter_empty_conv)
    moreover have "P a" using Cons.prems(3) [of a] True by simp
    ultimately show ?thesis using True by simp
  next
    case False
    then have "x \<in> set xs" using Cons.prems(2) by simp
    moreover have "\<not> P a" using Cons.prems(3) [of a] False by simp
    ultimately show ?thesis using Cons.IH Cons.prems(1,3) by simp
  qed
qed

lemma decode_flat_pos:
  assumes "in_bounds x maxes"
  shows "transform_discrete_to_multi_discrete (flat_pos x maxes) maxes = x"
proof -
  have mem: "x \<in> set (all_indices maxes)"
    using assms by (simp add: set_all_indices in_bounds_def)
  have "filter (\<lambda>idx. nd_index [0..<prod_list maxes] maxes idx = Inr [flat_pos x maxes])
          (all_indices maxes) = [x]"
  proof (rule filter_unique [OF distinct_all_indices mem])
    fix y assume "y \<in> set (all_indices maxes)"
    then have y: "list_all2 (\<lambda>v m. v < m) y maxes" by (simp add: set_all_indices)
    have "nd_index [0..<prod_list maxes] maxes y = Inr [flat_pos y maxes]"
      using nd_index_block [OF y, of 0] by simp
    then show "nd_index [0..<prod_list maxes] maxes y = Inr [flat_pos x maxes] \<longleftrightarrow> y = x"
      using flat_pos_inj [OF y] assms by (auto simp: in_bounds_def)
  qed
  then show ?thesis by (simp add: transform_discrete_to_multi_discrete_def)
qed


lemma in_bounds_decode:
  assumes "k < prod_list maxes"
  shows "in_bounds (transform_discrete_to_multi_discrete k maxes) maxes"
    and "flat_pos (transform_discrete_to_multi_discrete k maxes) maxes = k"
proof -
  from flat_pos_surj [OF assms] obtain vs where
    vs: "list_all2 (\<lambda>v m. v < m) vs maxes" "flat_pos vs maxes = k" by blast
  then have "transform_discrete_to_multi_discrete k maxes = vs"
    using decode_flat_pos [of vs maxes] by (simp add: in_bounds_def)
  with vs show "in_bounds (transform_discrete_to_multi_discrete k maxes) maxes"
    and "flat_pos (transform_discrete_to_multi_discrete k maxes) maxes = k"
    by (simp_all add: in_bounds_def)
qed

lemma flat_pos_snoc:
  "length xs = length ms \<Longrightarrow> flat_pos (xs @ [v]) (ms @ [m]) = flat_pos xs ms * m + v"
proof (induction xs ms rule: list_induct2)
  case Nil
  then show ?case by simp
next
  case (Cons x xs y ys)
  then show ?case by (simp add: algebra_simps)
qed

text \<open>
  \<^bold>\<open>Claim C9.\<close> The dimension codec is a bijection in which the rightmost element varies
  fastest. For every multi-discrete tuple \<open>x\<close> within the per-dimension bounds \<open>maxes\<close>, the
  encoder returns a flat index \<open>k\<close> below \<open>prod_list maxes\<close> and the decoder maps \<open>k\<close> back to
  \<open>x\<close>. For every flat index \<open>k\<close> below \<open>prod_list maxes\<close>, the decoded tuple is within the bounds
  and the encoder maps it back to \<open>k\<close>. Raising the last coordinate of a tuple by one raises
  its flat index by one.
\<close>

theorem codec_round_trip:
  "(in_bounds x maxes \<longrightarrow>
      (\<exists>k. transform_multi_discrete_to_discrete x maxes = Inr [k] \<and> k < prod_list maxes \<and>
           transform_discrete_to_multi_discrete k maxes = x)) \<and>
   (k < prod_list maxes \<longrightarrow>
      in_bounds (transform_discrete_to_multi_discrete k maxes) maxes \<and>
      transform_multi_discrete_to_discrete (transform_discrete_to_multi_discrete k maxes) maxes
        = Inr [k]) \<and>
   (in_bounds (ys @ [Suc v]) (ms @ [m]) \<longrightarrow>
      (\<exists>j. transform_multi_discrete_to_discrete (ys @ [v]) (ms @ [m]) = Inr [j] \<and>
           transform_multi_discrete_to_discrete (ys @ [Suc v]) (ms @ [m]) = Inr [Suc j]))"
proof (intro conjI impI)
  assume b: "in_bounds x maxes"
  show "\<exists>k. transform_multi_discrete_to_discrete x maxes = Inr [k] \<and> k < prod_list maxes \<and>
           transform_discrete_to_multi_discrete k maxes = x"
    using encode_flat_pos [OF b] decode_flat_pos [OF b] flat_pos_less [of x maxes] b
    by (auto simp: in_bounds_def)
next
  assume k: "k < prod_list maxes"
  show "in_bounds (transform_discrete_to_multi_discrete k maxes) maxes"
    by (rule in_bounds_decode(1) [OF k])
  show "transform_multi_discrete_to_discrete (transform_discrete_to_multi_discrete k maxes) maxes
        = Inr [k]"
    using encode_flat_pos [OF in_bounds_decode(1) [OF k]] in_bounds_decode(2) [OF k] by simp
next
  assume b: "in_bounds (ys @ [Suc v]) (ms @ [m])"
  then have len: "length ys = length ms"
    by (auto simp: in_bounds_def dest: list_all2_lengthD)
  from b have b1: "list_all2 (\<lambda>v m. v < m) ys ms" and v: "Suc v < m"
    using len by (simp_all add: in_bounds_def list_all2_append)
  then have b': "in_bounds (ys @ [v]) (ms @ [m])"
    using len by (simp add: in_bounds_def list_all2_append)
  show "\<exists>j. transform_multi_discrete_to_discrete (ys @ [v]) (ms @ [m]) = Inr [j] \<and>
           transform_multi_discrete_to_discrete (ys @ [Suc v]) (ms @ [m]) = Inr [Suc j]"
    using encode_flat_pos [OF b] encode_flat_pos [OF b'] flat_pos_snoc [OF len]
    by simp
qed

theorem codec_round_trip_witness:
  "in_bounds [1, 2] [2, 3] \<and> (5::nat) < prod_list [2, 3] \<and> in_bounds ([1] @ [Suc 1]) ([2] @ [3]) \<and>
   transform_multi_discrete_to_discrete [1, 2] [2, 3] = Inr [5] \<and>
   transform_discrete_to_multi_discrete 5 [2, 3] = [1, 2] \<and>
   transform_multi_discrete_to_discrete [1, 1] [2, 3] = Inr [4]"
proof -
  have b: "in_bounds [1, 2] [2, 3]" by (simp add: in_bounds_def)
  have k: "(5::nat) < prod_list [2, 3]" by simp
  have e: "transform_multi_discrete_to_discrete [1, 2] [2, 3] = Inr [5]" by code_simp
  have b2: "in_bounds ([1] @ [Suc 1]) ([2] @ [3])" by (simp add: in_bounds_def)
  have e2: "[1] @ [Suc 1] = [1, 2::nat]" "[2] @ [3] = [2, 3::nat]" "[1] @ [1] = [1, 1::nat]" by simp_all
  from codec_round_trip [of "[1, 2]" "[2, 3]" 5 "[1]" 1 "[2]" 3] b k b2
  have r: "(\<exists>k. transform_multi_discrete_to_discrete [1, 2] [2, 3] = Inr [k] \<and>
              transform_discrete_to_multi_discrete k [2, 3] = [1, 2])"
    and s: "(\<exists>j. transform_multi_discrete_to_discrete ([1] @ [1]) ([2] @ [3]) = Inr [j] \<and>
           transform_multi_discrete_to_discrete ([1] @ [Suc 1]) ([2] @ [3]) = Inr [Suc j])"
    by blast+
  from r e have d: "transform_discrete_to_multi_discrete 5 [2, 3] = [1, 2]" by auto
  from s e have "transform_multi_discrete_to_discrete [1, 1] [2, 3] = Inr [4]"
    unfolding e2 by auto
  with b k b2 e d show ?thesis by blast
qed

section \<open>Properties of the constructed environment\<close>

lemma reset_fields:
  assumes "reset ops e = Inr (s, e')"
  shows "config e' = config e" "num_terminal_states e' = num_terminal_states e"
    "is_terminal_state_array e' = is_terminal_state_array e"
    "transition_table e' = transition_table e" "specific_sequences e' = specific_sequences e"
    "curr_state e' = s"
    "augmented_state e' = replicate (augmented_state_length e - 1) None @ [Some s]"
    "reached_terminal e' = False"
  using assms by (auto simp: reset_def split: sum.splits if_splits)

lemma construct_Inr:
  assumes "construct ops cfg = Inr e"
  shows "config e = cfg" "sequence_length cfg \<noteq> 0"
    "completely_connected cfg \<longrightarrow> state_space_size cfg = action_space_size cfg"
    "init_terminal_states ops cfg =
       (num_terminal_states e, is_terminal_state_array e, snd (snd (init_terminal_states ops cfg)))"
    "\<exists>g g'. init_transition_function ops cfg (num_terminal_states e) g = Inr (transition_table e, g')"
    "\<exists>g g'. init_reward_function ops cfg (num_terminal_states e) g = Inr (specific_sequences e, g')"
    "reached_terminal e = False"
    "\<exists>s. augmented_state e = replicate (sequence_length cfg + delay cfg) None @ [Some s]"
proof -
  obtain sd g where sg: "gen_seeds ops (seed cfg) = (sd, g)" by (cases "gen_seeds ops (seed cfg)")
  obtain nts arr warned where it: "init_terminal_states ops cfg = (nts, arr, warned)"
    by (cases "init_terminal_states ops cfg")
  from assms sg it have c1: "sequence_length cfg \<noteq> 0"
    and c2: "completely_connected cfg \<longrightarrow> state_space_size cfg = action_space_size cfg"
    by (auto simp: construct_def split: if_splits)
  from assms sg it c1 c2 obtain T gs where
    tf: "init_transition_function ops cfg nts (space_seed ops (seed_relevant_state_space sd)) = Inr (T, gs)"
    by (auto simp: construct_def split: if_splits sum.splits)
  from assms sg it c1 c2 tf obtain seqs g' where
    rf: "init_reward_function ops cfg nts g = Inr (seqs, g')"
    by (auto simp: construct_def split: if_splits sum.splits)
  from assms sg it c1 c2 tf rf obtain s0 where
    rs: "reset ops
          \<lparr>config = cfg, seed_dict_of = sd, np_random = g',
           relevant_observation_space = gs,
           num_terminal_states = nts, is_terminal_state_array = arr,
           relevant_init_state_dist = init_init_state_dist (state_space_size cfg) nts,
           transition_table = T,
           specific_sequences = seqs, total_episodes = 0, curr_state = 0,
           augmented_state = [], possible_remaining_sequences = [],
           reached_terminal = False,
           total_abs_noise_in_reward_episode = 0, total_reward_episode = 0,
           total_noisy_transitions_episode = 0,
           total_transitions_episode = 0\<rparr> = Inr (s0, e)"
    by (auto simp: construct_def split: if_splits sum.splits)
  note f = reset_fields [OF rs]
  show "config e = cfg" using f(1) by simp
  show "sequence_length cfg \<noteq> 0" by (rule c1)
  show "completely_connected cfg \<longrightarrow> state_space_size cfg = action_space_size cfg" by (rule c2)
  show "init_terminal_states ops cfg =
       (num_terminal_states e, is_terminal_state_array e, snd (snd (init_terminal_states ops cfg)))"
    using f(2,3) it by simp
  show "\<exists>g g'. init_transition_function ops cfg (num_terminal_states e) g = Inr (transition_table e, g')"
    using tf f(2,4) by auto
  show "\<exists>g g'. init_reward_function ops cfg (num_terminal_states e) g = Inr (specific_sequences e, g')"
    using rf f(2,5) by auto
  show "reached_terminal e = False" using f(8) by simp
  show "\<exists>s. augmented_state e = replicate (sequence_length cfg + delay cfg) None @ [Some s]"
    using f(7) by (auto simp: augmented_state_length_def)
qed

section \<open>Properties of the transition table\<close>

lemma set_cell_shape:
  "length (set_cell T s a v) = length T" "length (set_cell T s a v ! i) = length (T ! i)"
proof -
  show "length (set_cell T s a v) = length T" by (simp add: set_cell_def)
  show "length (set_cell T s a v ! i) = length (T ! i)"
  proof (cases "i = s \<and> s < length T")
    case True
    then show ?thesis by (simp add: set_cell_def)
  next
    case False
    then show ?thesis by (cases "i = s") (simp_all add: set_cell_def list_update_beyond)
  qed
qed

lemma set_cell_nth:
  "i < length T \<Longrightarrow> b < length (T ! i) \<Longrightarrow>
   set_cell T s a v ! i ! b = (if i = s \<and> b = a then v else T ! i ! b)"
  by (cases "i = s"; cases "b = a") (simp_all add: set_cell_def)

lemma fold_set_cell_shape:
  "length (fold (\<lambda>a T. set_cell T s a v) as T) = length T"
  "length (fold (\<lambda>a T. set_cell T s a v) as T ! i) = length (T ! i)"
  by (induction as arbitrary: T) (simp_all add: set_cell_shape)

lemma fold_set_cell_nth:
  "i < length T \<Longrightarrow> b < length (T ! i) \<Longrightarrow>
   fold (\<lambda>a T. set_cell T s a v) as T ! i ! b = (if i = s \<and> b \<in> set as then v else T ! i ! b)"
proof (induction as arbitrary: T)
  case Nil
  then show ?case by simp
next
  case (Cons a as)
  have "i < length (set_cell T s a v)" "b < length (set_cell T s a v ! i)"
    using Cons.prems by (simp_all add: set_cell_shape)
  from Cons.IH [OF this] show ?case
    using Cons.prems by (auto simp: set_cell_nth)
qed

lemma fold_rows_shape:
  "length (fold (\<lambda>s T. fold (\<lambda>a T. set_cell T s a s) as T) ss T) = length T"
  "length (fold (\<lambda>s T. fold (\<lambda>a T. set_cell T s a s) as T) ss T ! i) = length (T ! i)"
  by (induction ss arbitrary: T) (simp_all add: fold_set_cell_shape)

lemma fold_rows_nth:
  "i < length T \<Longrightarrow> b < length (T ! i) \<Longrightarrow>
   fold (\<lambda>s T. fold (\<lambda>a T. set_cell T s a s) as T) ss T ! i ! b =
     (if i \<in> set ss \<and> b \<in> set as then i else T ! i ! b)"
proof (induction ss arbitrary: T)
  case Nil
  then show ?case by simp
next
  case (Cons s ss)
  let ?T = "fold (\<lambda>a T. set_cell T s a s) as T"
  have "i < length ?T" "b < length (?T ! i)"
    using Cons.prems by (simp_all add: fold_set_cell_shape)
  from Cons.IH [OF this] show ?case
    using Cons.prems by (auto simp: fold_set_cell_nth)
qed

lemma set_terminal_rows_shape:
  "length (set_terminal_rows n m nts T) = length T"
  "length (set_terminal_rows n m nts T ! i) = length (T ! i)"
  by (simp_all add: set_terminal_rows_def fold_rows_shape)

lemma set_terminal_rows_nth:
  "i < length T \<Longrightarrow> b < length (T ! i) \<Longrightarrow>
   set_terminal_rows n m nts T ! i ! b =
     (if int n - nts \<le> int i \<and> i < n \<and> b < m then i else T ! i ! b)"
  by (auto simp: set_terminal_rows_def fold_rows_nth)

lemma sample_rows_shape:
  "sample_rows ops n m c g = Inr (T, g') \<Longrightarrow> length T = c \<and> (\<forall>row \<in> set T. length row = m)"
proof (induction c arbitrary: g T g')
  case 0
  then show ?case by simp
next
  case (Suc c)
  from Suc.prems obtain row g1 row' rows where
    "sample_no_replace ops n m g = Inr (row, g1)" "assign_row m row = Inr row'"
    "sample_rows ops n m c g1 = Inr (rows, g')" "T = row' # rows"
    by (auto split: sum.splits)
  moreover from this(2) have "length row' = m"
    by (auto simp: assign_row_def split: if_splits)
  ultimately show ?case using Suc.IH by auto
qed

lemma sample_cells_length: "sample_cells ops n c g = (xs, g') \<Longrightarrow> length xs = c"
proof (induction c arbitrary: g xs g')
  case 0
  then show ?case by simp
next
  case (Suc c)
  obtain x g1 where x: "sample ops n g = (x, g1)" by (cases "sample ops n g")
  obtain ys g2 where ys: "sample_cells ops n c g1 = (ys, g2)" by (cases "sample_cells ops n c g1")
  from Suc.prems x ys have "xs = x # ys" by simp
  with Suc.IH [OF ys] show ?case by simp
qed

lemma sample_table_shape:
  "sample_table ops n m c g = (T, g') \<Longrightarrow> length T = c \<and> (\<forall>row \<in> set T. length row = m)"
proof (induction c arbitrary: g T g')
  case 0
  then show ?case by simp
next
  case (Suc c)
  obtain row g1 where r: "sample_cells ops n m g = (row, g1)" by (cases "sample_cells ops n m g")
  obtain rows g2 where rs: "sample_table ops n m c g1 = (rows, g2)" by (cases "sample_table ops n m c g1")
  have "length row = m" using sample_cells_length [OF r] by simp
  with Suc.IH [OF rs] Suc.prems r rs show ?case by auto
qed

lemma init_transition_function_cases:
  assumes "init_transition_function ops cfg nts g = Inr (T, g')"
  obtains T0 where "length T0 = state_space_size cfg"
    "\<forall>row \<in> set T0. length row = action_space_size cfg"
    "T = set_terminal_rows (state_space_size cfg) (action_space_size cfg) nts T0"
    "0 < state_space_size cfg" "0 < action_space_size cfg"
    "completely_connected cfg \<longrightarrow>
       sample_rows ops (state_space_size cfg) (action_space_size cfg) (state_space_size cfg) g = Inr (T0, g')"
proof (cases "completely_connected cfg")
  case True
  with assms obtain T0 where
    s: "sample_rows ops (state_space_size cfg) (action_space_size cfg) (state_space_size cfg) g = Inr (T0, g')"
    and r: "T = set_terminal_rows (state_space_size cfg) (action_space_size cfg) nts T0"
       "0 < state_space_size cfg" "0 < action_space_size cfg"
    by (auto simp: init_transition_function_def Let_def split: if_splits sum.splits)
  from sample_rows_shape [OF s] s r that show ?thesis by blast
next
  case False
  obtain T0 g0 where
    s: "sample_table ops (state_space_size cfg) (action_space_size cfg) (state_space_size cfg) g = (T0, g0)"
    by (cases "sample_table ops (state_space_size cfg) (action_space_size cfg) (state_space_size cfg) g")
  with assms False have r: "T = set_terminal_rows (state_space_size cfg) (action_space_size cfg) nts T0"
       "0 < state_space_size cfg" "0 < action_space_size cfg"
    by (auto simp: init_transition_function_def Let_def split: if_splits)
  from sample_table_shape [OF s] r False that show ?thesis by blast
qed

lemma init_transition_function_shape:
  assumes "init_transition_function ops cfg nts g = Inr (T, g')"
  shows "length T = state_space_size cfg" "0 < state_space_size cfg" "0 < action_space_size cfg"
    "i < state_space_size cfg \<Longrightarrow> length (T ! i) = action_space_size cfg"
proof -
  from assms obtain T0 where
    T0: "length T0 = state_space_size cfg" "\<forall>row \<in> set T0. length row = action_space_size cfg"
    and T: "T = set_terminal_rows (state_space_size cfg) (action_space_size cfg) nts T0"
    and pos: "0 < state_space_size cfg" "0 < action_space_size cfg"
    by (rule init_transition_function_cases)
  show "length T = state_space_size cfg" using T T0 by (simp add: set_terminal_rows_shape)
  show "0 < state_space_size cfg" "0 < action_space_size cfg" by (rule pos)+
  show "i < state_space_size cfg \<Longrightarrow> length (T ! i) = action_space_size cfg"
    using T T0 by (simp add: set_terminal_rows_shape)
qed

lemma init_transition_function_terminal:
  assumes "init_transition_function ops cfg nts g = Inr (T, g')"
    and "int (state_space_size cfg) - nts \<le> int s" "s < state_space_size cfg"
    and "a < action_space_size cfg"
  shows "T ! s ! a = s"
proof -
  from assms(1) obtain T0 where
    T0: "length T0 = state_space_size cfg" "\<forall>row \<in> set T0. length row = action_space_size cfg"
    and T: "T = set_terminal_rows (state_space_size cfg) (action_space_size cfg) nts T0"
    by (rule init_transition_function_cases)
  have "s < length T0" "a < length (T0 ! s)" using T0 assms(3,4) by simp_all
  then show ?thesis using T assms(2-4) by (simp add: set_terminal_rows_nth)
qed

lemma is_terminal_state_iff:
  "is_terminal_state (map (\<lambda>i. int n - 1 - int i) [0..<nat num]) (Some s) \<longleftrightarrow>
     int n - num \<le> int s \<and> s < n"
proof -
  have "is_terminal_state (map (\<lambda>i. int n - 1 - int i) [0..<nat num]) (Some s) \<longleftrightarrow>
      (\<exists>i. i < nat num \<and> int s = int n - 1 - int i)"
    by (simp add: is_terminal_state_def image_iff Bex_def)
  also have "\<dots> \<longleftrightarrow> int n - num \<le> int s \<and> s < n"
  proof
    assume "\<exists>i. i < nat num \<and> int s = int n - 1 - int i"
    then obtain i where "i < nat num" "int s = int n - 1 - int i" by blast
    then show "int n - num \<le> int s \<and> s < n" by linarith
  next
    assume a: "int n - num \<le> int s \<and> s < n"
    then have "n - 1 - s < nat num \<and> int s = int n - 1 - int (n - 1 - s)" by linarith
    then show "\<exists>i. i < nat num \<and> int s = int n - 1 - int i" by (rule exI)
  qed
  finally show ?thesis .
qed

lemma terminal_range_is_terminal:
  "s \<in> set [nat (int n - num)..<n] \<Longrightarrow> 0 \<le> int n - num \<Longrightarrow>
   is_terminal_state (map (\<lambda>i. int n - 1 - int i) [0..<nat num]) (Some s)"
  unfolding is_terminal_state_iff by auto

lemma construct_terminal_iff:
  assumes "construct ops cfg = Inr e"
  shows "is_terminal_state (is_terminal_state_array e) (Some s) \<longleftrightarrow>
     int (state_space_size cfg) - num_terminal_states e \<le> int s \<and> s < state_space_size cfg"
proof -
  have "is_terminal_state_array e =
      map (\<lambda>i. int (state_space_size cfg) - 1 - int i) [0..<nat (num_terminal_states e)]"
    using construct_Inr(4) [OF assms] by (auto simp: init_terminal_states_def Let_def)
  then show ?thesis by (simp add: is_terminal_state_iff)
qed

section \<open>Terminal states\<close>

lemma int_trunc_nonneg: "0 \<le> x \<Longrightarrow> int_trunc x = \<lfloor>x\<rfloor>"
  by (simp add: int_trunc_def)

lemma float_times_int_bounds:
  assumes "float_times_int_ok ops" and "0 \<le> d" and "d \<le> 1" and "n \<le> 2 ^ 53"
  shows "0 \<le> float_times_int ops d (int n)" "\<lfloor>float_times_int ops d (int n)\<rfloor> \<le> int n"
proof -
  have "int n \<le> int (2 ^ 53)" using assms(4) by (simp only: of_nat_le_iff)
  then have n: "(0::int) \<le> int n" "int n \<le> 2 ^ 53" by simp_all
  show "0 \<le> float_times_int ops d (int n)"
    using assms(1,2) n(1) unfolding float_times_int_ok_def by blast
  have "float_times_int ops d (int n) \<le> real_of_int (int n)"
    using assms(1,3) n unfolding float_times_int_ok_def by blast
  then have "\<lfloor>float_times_int ops d (int n)\<rfloor> \<le> \<lfloor>real_of_int (int n)\<rfloor>" by (rule floor_mono)
  then show "\<lfloor>float_times_int ops d (int n)\<rfloor> \<le> int n" by simp
qed

lemma toy_float_times_int: "float_times_int toy_samplers d n = d * real_of_int n"
  by (simp add: toy_samplers_def)

lemma toy_float_times_int_ok: "float_times_int_ok toy_samplers"
  unfolding float_times_int_ok_def toy_float_times_int
proof (intro conjI allI impI)
  fix d :: real and n :: int
  assume "0 \<le> d" "0 \<le> n"
  then show "0 \<le> d * real_of_int n" by simp
next
  fix d :: real and n :: int
  assume "d \<le> 1" "0 \<le> n"
  then have "d * real_of_int n \<le> 1 * real_of_int n" by (intro mult_right_mono) simp_all
  then show "d * real_of_int n \<le> real_of_int n" by simp
qed

lemma terminal_states_number:
  assumes "construct ops cfg = Inr e"
    and "0 \<le> float_times_int ops (terminal_state_density cfg) (int (state_space_size cfg))"
  shows "num_terminal_states e =
      (if 0 < \<lfloor>float_times_int ops (terminal_state_density cfg) (int (state_space_size cfg))\<rfloor>
       then \<lfloor>float_times_int ops (terminal_state_density cfg) (int (state_space_size cfg))\<rfloor>
       else 1)"
    and "snd (snd (init_terminal_states ops cfg)) =
      (\<not> 0 < \<lfloor>float_times_int ops (terminal_state_density cfg) (int (state_space_size cfg))\<rfloor>)"
proof -
  let ?p = "float_times_int ops (terminal_state_density cfg) (int (state_space_size cfg))"
  define v where "v = \<lfloor>?p\<rfloor>"
  have t: "int_trunc ?p = v" unfolding v_def by (rule int_trunc_nonneg [OF assms(2)])
  have f: "0 \<le> v" unfolding v_def using assms(2) by simp
  have its: "init_terminal_states ops cfg =
      (if v = 0 then 1 else v,
       map (\<lambda>i. int (state_space_size cfg) - 1 - int i) [0..<nat (if v = 0 then 1 else v)],
       v = 0)"
    unfolding init_terminal_states_def Let_def t by (rule refl)
  have "num_terminal_states e = fst (init_terminal_states ops cfg)"
    using construct_Inr(4) [OF assms(1)] by (metis fst_conv)
  also have "\<dots> = (if v = 0 then 1 else v)" unfolding its by simp
  also have "\<dots> = (if 0 < v then v else 1)" using f by auto
  finally show "num_terminal_states e = (if 0 < \<lfloor>?p\<rfloor> then \<lfloor>?p\<rfloor> else 1)"
    unfolding v_def .
  have "snd (snd (init_terminal_states ops cfg)) = (v = 0)" unfolding its by simp
  also have "\<dots> = (\<not> 0 < v)" using f by auto
  finally show "snd (snd (init_terminal_states ops cfg)) = (\<not> 0 < \<lfloor>?p\<rfloor>)"
    unfolding v_def .
qed

lemma terminal_states_bounds:
  assumes "construct ops cfg = Inr e" and "float_times_int_ok ops"
    and "0 \<le> terminal_state_density cfg" and "terminal_state_density cfg \<le> 1"
    and "state_space_size cfg \<le> 2 ^ 53"
  shows "1 \<le> num_terminal_states e \<and> num_terminal_states e \<le> int (state_space_size cfg)"
proof -
  let ?n = "state_space_size cfg"
  note b = float_times_int_bounds [OF assms(2,3,4,5)]
  from construct_Inr(5) [OF assms(1)] have npos: "0 < ?n"
    by (auto dest: init_transition_function_shape(2))
  show ?thesis unfolding terminal_states_number(1) [OF assms(1) b(1)] using b(2) npos by auto
qed

text \<open>
  \<^bold>\<open>Claim C10.\<close> In every constructed discrete environment whose
  \<^verbatim>\<open>terminal_state_density\<close> lies in its domain \<open>[0, 1]\<close> (and with at most \<open>2^53\<close> states, so
  that the contract of the floating-point product applies), the number of terminal states
  is \<^verbatim>\<open>int(terminal_state_density * relevant_state_space_size)\<close>, the integer part of the
  floating-point product, when that integer is positive, and is 1 otherwise, in which case
  \<^verbatim>\<open>init_terminal_states\<close> issues its warning (the third component of its result). Hence
  there is at least one terminal state, also for the density 0, and the terminal states are
  exactly the \<^verbatim>\<open>num_terminal_states\<close> highest-numbered states.
\<close>

theorem terminal_states_count:
  assumes "construct ops cfg = Inr e" and "float_times_int_ok ops"
    and "0 \<le> terminal_state_density cfg" and "terminal_state_density cfg \<le> 1"
    and "state_space_size cfg \<le> 2 ^ 53"
  shows "init_terminal_states ops cfg =
           (num_terminal_states e, is_terminal_state_array e,
            \<not> 0 < \<lfloor>float_times_int ops (terminal_state_density cfg)
                      (int (state_space_size cfg))\<rfloor>) \<and>
         num_terminal_states e =
           (if 0 < \<lfloor>float_times_int ops (terminal_state_density cfg) (int (state_space_size cfg))\<rfloor>
            then \<lfloor>float_times_int ops (terminal_state_density cfg) (int (state_space_size cfg))\<rfloor>
            else 1) \<and>
         1 \<le> num_terminal_states e \<and> num_terminal_states e \<le> int (state_space_size cfg) \<and>
         is_terminal_state (is_terminal_state_array e) (Some (state_space_size cfg - 1)) \<and>
         (\<forall>s. is_terminal_state (is_terminal_state_array e) (Some s) \<longleftrightarrow>
                state_space_size cfg - nat (num_terminal_states e) \<le> s \<and> s < state_space_size cfg)"
proof -
  let ?n = "state_space_size cfg"
  let ?p = "float_times_int ops (terminal_state_density cfg) (int ?n)"
  note b = float_times_int_bounds [OF assms(2,3,4,5)]
  from construct_Inr(5) [OF assms(1)] have npos: "0 < ?n"
    by (auto dest: init_transition_function_shape(2))
  have its: "init_terminal_states ops cfg =
      (num_terminal_states e, is_terminal_state_array e, snd (snd (init_terminal_states ops cfg)))"
    by (rule construct_Inr(4) [OF assms(1)])
  have w: "snd (snd (init_terminal_states ops cfg)) = (\<not> 0 < \<lfloor>?p\<rfloor>)"
    by (rule terminal_states_number(2) [OF assms(1) b(1)])
  have num: "num_terminal_states e = (if 0 < \<lfloor>?p\<rfloor> then \<lfloor>?p\<rfloor> else 1)"
    by (rule terminal_states_number(1) [OF assms(1) b(1)])
  have lo: "1 \<le> num_terminal_states e" using num by auto
  have hi: "num_terminal_states e \<le> int ?n" using num b(2) npos by auto
  have iff: "is_terminal_state (is_terminal_state_array e) (Some s) \<longleftrightarrow>
      ?n - nat (num_terminal_states e) \<le> s \<and> s < ?n" for s
    unfolding construct_terminal_iff [OF assms(1)] using lo hi by auto
  have last: "is_terminal_state (is_terminal_state_array e) (Some (?n - 1))"
    unfolding iff using lo npos by auto
  show ?thesis using its w num lo hi iff last by simp
qed

lemma example_2_constructs:
  "\<not> isl (construct toy_samplers (example_config 2 1 0 0 0 (1/2) True False))"
  by code_simp

lemma example_C10_constructs:
  "\<not> isl (construct toy_samplers (example_config 4 1 0 0 (1/2) (1/2) True False))"
  by code_simp

text \<open>
  The theorem at two configurations. Four states with the density 1/2: the product is 2 and
  the terminal states are 2 and 3. Two states with the density 0: the product is 0, the
  number is forced to 1 and the terminal state is 1.
\<close>

theorem terminal_states_count_witness:
  "float_times_int_ok toy_samplers \<and>
   (0::real) \<le> 1/2 \<and> (1/2::real) \<le> 1 \<and> (4::nat) \<le> 2 ^ 53 \<and>
   (case construct toy_samplers (example_config 4 1 0 0 (1/2) (1/2) True False) of
      Inl err \<Rightarrow> False
    | Inr e \<Rightarrow> num_terminal_states e = 2 \<and>
        \<not> is_terminal_state (is_terminal_state_array e) (Some 0) \<and>
        \<not> is_terminal_state (is_terminal_state_array e) (Some 1) \<and>
        is_terminal_state (is_terminal_state_array e) (Some 2) \<and>
        is_terminal_state (is_terminal_state_array e) (Some 3)) \<and>
   (0::real) \<le> 0 \<and> (0::real) \<le> 1 \<and> (2::nat) \<le> 2 ^ 53 \<and>
   (case construct toy_samplers (example_config 2 1 0 0 0 (1/2) True False) of
      Inl err \<Rightarrow> False
    | Inr e \<Rightarrow> num_terminal_states e = 1 \<and>
        is_terminal_state (is_terminal_state_array e) (Some 1) \<and>
        \<not> is_terminal_state (is_terminal_state_array e) (Some 0))"
proof -
  let ?c4 = "example_config 4 1 0 0 (1/2) (1/2) True False :: nat config"
  let ?c2 = "example_config 2 1 0 0 0 (1/2) True False :: nat config"
  obtain e4 where e4: "construct toy_samplers ?c4 = Inr e4"
    using example_C10_constructs by (cases "construct toy_samplers ?c4") auto
  obtain e2 where e2: "construct toy_samplers ?c2 = Inr e2"
    using example_2_constructs by (cases "construct toy_samplers ?c2") auto
  have d4: "terminal_state_density ?c4 = 1/2" "state_space_size ?c4 = 4"
    and d2: "terminal_state_density ?c2 = 0" "state_space_size ?c2 = 2"
    by (simp_all add: example_config_def)
  have h4: "0 \<le> terminal_state_density ?c4" "terminal_state_density ?c4 \<le> 1"
    "state_space_size ?c4 \<le> 2 ^ 53"
    using d4 by simp_all
  have h2: "0 \<le> terminal_state_density ?c2" "terminal_state_density ?c2 \<le> 1"
    "state_space_size ?c2 \<le> 2 ^ 53"
    using d2 by simp_all
  from terminal_states_count [OF e4 toy_float_times_int_ok h4]
  have n4: "num_terminal_states e4 = 2"
    and t4: "\<forall>s. is_terminal_state (is_terminal_state_array e4) (Some s) \<longleftrightarrow>
                state_space_size ?c4 - nat (num_terminal_states e4) \<le> s \<and> s < state_space_size ?c4"
    unfolding d4 toy_float_times_int by simp_all
  from terminal_states_count [OF e2 toy_float_times_int_ok h2]
  have n2: "num_terminal_states e2 = 1"
    and t2: "\<forall>s. is_terminal_state (is_terminal_state_array e2) (Some s) \<longleftrightarrow>
                state_space_size ?c2 - nat (num_terminal_states e2) \<le> s \<and> s < state_space_size ?c2"
    unfolding d2 toy_float_times_int by simp_all
  have r4: "num_terminal_states e4 = 2 \<and>
        \<not> is_terminal_state (is_terminal_state_array e4) (Some 0) \<and>
        \<not> is_terminal_state (is_terminal_state_array e4) (Some 1) \<and>
        is_terminal_state (is_terminal_state_array e4) (Some 2) \<and>
        is_terminal_state (is_terminal_state_array e4) (Some 3)"
    using n4 t4 unfolding d4 by simp
  have r2: "num_terminal_states e2 = 1 \<and>
        is_terminal_state (is_terminal_state_array e2) (Some 1) \<and>
        \<not> is_terminal_state (is_terminal_state_array e2) (Some 0)"
    using n2 t2 unfolding d2 by simp
  show ?thesis unfolding e4 e2 sum.case
    using toy_float_times_int_ok r4 r2 by simp
qed

text \<open>
  \<^bold>\<open>Claim C2.\<close> In every constructed discrete environment, for every terminal state \<open>s\<close>
  and every action \<open>a\<close> of the action space, the cell of the transition table for \<open>s\<close> and
  \<open>a\<close> exists and holds \<open>s\<close>: terminal states are absorbing under every action.
\<close>

theorem terminal_states_absorbing:
  assumes "construct ops cfg = Inr e"
    and "is_terminal_state (is_terminal_state_array e) (Some s)"
    and "a < action_space_size cfg"
  shows "s < length (transition_table e) \<and> a < length (transition_table e ! s) \<and>
         transition_table e ! s ! a = s"
proof -
  from construct_Inr(5) [OF assms(1)] obtain g g' where
    tf: "init_transition_function ops cfg (num_terminal_states e) g = Inr (transition_table e, g')"
    by blast
  from assms(2) have s: "int (state_space_size cfg) - num_terminal_states e \<le> int s"
      "s < state_space_size cfg"
    unfolding construct_terminal_iff [OF assms(1)] by simp_all
  show ?thesis
    using init_transition_function_shape(1,4) [OF tf] init_transition_function_terminal [OF tf s assms(3)]
      s(2) assms(3) by simp
qed

theorem terminal_states_absorbing_witness:
  "(case construct toy_samplers (example_config 2 1 0 0 0 (1/2) True False) of
      Inl err \<Rightarrow> False
    | Inr e \<Rightarrow> is_terminal_state (is_terminal_state_array e) (Some 1) \<and>
        (0::nat) < action_space_size (example_config 2 1 0 0 0 (1/2) True False :: nat config) \<and>
        transition_table e ! 1 ! 0 = 1)"
proof -
  let ?cfg = "example_config 2 1 0 0 0 (1/2) True False :: nat config"
  obtain e where e: "construct toy_samplers ?cfg = Inr e"
    using example_2_constructs by (cases "construct toy_samplers ?cfg") auto
  have t: "case construct toy_samplers ?cfg of Inl err \<Rightarrow> False
           | Inr e \<Rightarrow> is_terminal_state (is_terminal_state_array e) (Some 1)"
    by code_simp
  then have t': "is_terminal_state (is_terminal_state_array e) (Some 1)" using e by simp
  have a: "0 < action_space_size ?cfg" by (simp add: example_config_def)
  from terminal_states_absorbing [OF e t' a] show ?thesis using e t' a by simp
qed

section \<open>Rows of a completely connected transition table\<close>

lemma sample_rows_contract:
  "sample_rows ops n m c g = Inr (T, g') \<Longrightarrow> sample_no_replace_ok ops \<Longrightarrow>
   \<forall>row \<in> set T. length row = m \<and> distinct row \<and> (\<forall>x \<in> set row. x < n)"
proof (induction c arbitrary: g T g')
  case 0
  then show ?case by simp
next
  case (Suc c)
  from Suc.prems(1) obtain row g1 row' rows where
    r: "sample_no_replace ops n m g = Inr (row, g1)" "assign_row m row = Inr row'"
    "sample_rows ops n m c g1 = Inr (rows, g')" "T = row' # rows"
    by (auto split: sum.splits)
  from r(1) Suc.prems(2) have ok: "length row = m" "distinct row" "\<forall>x \<in> set row. x < n"
    unfolding sample_no_replace_ok_def by blast+
  with r(2) have "row' = row" by (simp add: assign_row_def)
  with ok Suc.IH [OF r(3) Suc.prems(2)] r(4) show ?case by simp
qed

lemma permutation_of_range:
  assumes "distinct row" "length row = n" "\<forall>x \<in> set row. x < n"
  shows "mset row = mset [0..<n]"
proof -
  have sub: "set row \<subseteq> {0..<n}" using assms(3) by auto
  have "card (set row) = n" using assms(1,2) by (simp add: distinct_card)
  then have "set row = {0..<n}" using sub by (intro card_subset_eq) simp_all
  then have "set row = set [0..<n]" by simp
  with set_eq_iff_mset_eq_distinct [OF assms(1) distinct_upt, of 0 n] show ?thesis by blast
qed

text \<open>
  \<^bold>\<open>Claim C3\<close> fails as stated: the row of a terminal state is overwritten with the state
  itself. In the environment of two states constructed with \<^verbatim>\<open>completely_connected\<close>, the
  row of the terminal state 1 is \<open>[1, 1]\<close>, which is no permutation of the states 0 and 1.
\<close>

theorem completely_connected_rows_counterexample:
  "(case construct toy_samplers (example_config 2 1 0 0 0 (1/2) True False) of
      Inl err \<Rightarrow> False
    | Inr e \<Rightarrow> completely_connected (config e) \<and> transition_table e ! 1 = [1, 1]) \<and>
   mset [1, 1] \<noteq> mset [0..<2::nat]"
proof -
  have "case construct toy_samplers (example_config 2 1 0 0 0 (1/2) True False) of
      Inl err \<Rightarrow> False
    | Inr e \<Rightarrow> completely_connected (config e) \<and> transition_table e ! 1 = [1, 1]"
    by code_simp
  moreover have "mset [1, 1] \<noteq> mset [0..<2::nat]"
  proof
    assume "mset [1, 1] = mset [0..<2::nat]"
    then have "set [1, 1] = set [0..<2::nat]" by (rule mset_eq_setD)
    moreover have "(0::nat) \<in> set [0..<2]" by simp
    moreover have "(0::nat) \<notin> set [1, 1]" by simp
    ultimately show False by blast
  qed
  ultimately show ?thesis by blast
qed

text \<open>
  \<^bold>\<open>Claim C3, amended.\<close> In every discrete environment constructed with
  \<^verbatim>\<open>completely_connected\<close>, with a sampler that draws without replacement as its contract
  says, the row of the transition table of every state that is not terminal is a permutation
  of the states \<open>0, \<dots>, n - 1\<close>.
\<close>

theorem completely_connected_rows:
  assumes "construct ops cfg = Inr e" and "completely_connected cfg"
    and "sample_no_replace_ok ops"
    and "s < state_space_size cfg"
    and "\<not> is_terminal_state (is_terminal_state_array e) (Some s)"
  shows "mset (transition_table e ! s) = mset [0..<state_space_size cfg]"
proof -
  let ?n = "state_space_size cfg" and ?m = "action_space_size cfg"
  have nm: "?n = ?m" using construct_Inr(3) [OF assms(1)] assms(2) by simp
  from construct_Inr(5) [OF assms(1)] obtain g g' where
    tf: "init_transition_function ops cfg (num_terminal_states e) g = Inr (transition_table e, g')"
    by blast
  from tf obtain T0 where
    T0: "length T0 = ?n" "\<forall>row \<in> set T0. length row = ?m"
    and T: "transition_table e = set_terminal_rows ?n ?m (num_terminal_states e) T0"
    and sr: "completely_connected cfg \<longrightarrow> sample_rows ops ?n ?m ?n g = Inr (T0, g')"
    by (rule init_transition_function_cases)
  from sr assms(2) have "sample_rows ops ?n ?m ?n g = Inr (T0, g')" by simp
  note contract = sample_rows_contract [OF this assms(3)]
  have "T0 ! s \<in> set T0" using T0(1) assms(4) by simp
  with contract have row: "length (T0 ! s) = ?m" "distinct (T0 ! s)" "\<forall>x \<in> set (T0 ! s). x < ?n"
    by blast+
  from assms(5) assms(4) have nt: "\<not> int ?n - num_terminal_states e \<le> int s"
    unfolding construct_terminal_iff [OF assms(1)] by simp
  have "transition_table e ! s = T0 ! s"
  proof (rule nth_equalityI)
    show "length (transition_table e ! s) = length (T0 ! s)"
      by (simp add: T set_terminal_rows_shape)
  next
    fix b assume "b < length (transition_table e ! s)"
    then have b: "b < length (T0 ! s)" by (simp add: T set_terminal_rows_shape)
    have "s < length T0" using T0(1) assms(4) by simp
    from set_terminal_rows_nth [OF this b] nt
    show "transition_table e ! s ! b = T0 ! s ! b" by (simp add: T)
  qed
  moreover have "mset (T0 ! s) = mset [0..<?n]"
    using row nm by (intro permutation_of_range) simp_all
  ultimately show ?thesis by simp
qed

lemma toy_sample_no_replace: 
  "sample_no_replace toy_samplers n k g =
     (if n < k then Inl ValueError else Inr (take k (rotate (g mod n) [0..<n]), Suc g))"
  by (simp add: toy_samplers_def)

lemma toy_sample_no_replace_ok: "sample_no_replace_ok toy_samplers"
  unfolding sample_no_replace_ok_def
proof (intro allI impI)
  fix n k g row g'
  assume a: "sample_no_replace toy_samplers n k g = Inr (row, g')"
  then have le: "k \<le> n" and row: "row = take k (rotate (g mod n) [0..<n])"
    unfolding toy_sample_no_replace by (simp_all split: if_splits)
  have "set row \<subseteq> set (rotate (g mod n) [0..<n])" unfolding row by (rule set_take_subset)
  then have "\<forall>x \<in> set row. x < n" by auto
  moreover have "distinct row" unfolding row by (intro distinct_take) simp
  moreover have "length row = k" unfolding row using le by simp
  ultimately show "length row = k \<and> distinct row \<and> (\<forall>x \<in> set row. x < n)" by blast
qed

lemma example_4_constructs:
  "\<not> isl (construct toy_samplers (example_config 4 3 0 0 (1/4) (3/4) True True))"
  by code_simp

theorem completely_connected_rows_witness:
  "completely_connected (example_config 4 3 0 0 (1/4) (3/4) True True :: nat config) \<and>
   sample_no_replace_ok toy_samplers \<and>
   (1::nat) < state_space_size (example_config 4 3 0 0 (1/4) (3/4) True True :: nat config) \<and>
   (case construct toy_samplers (example_config 4 3 0 0 (1/4) (3/4) True True) of
      Inl err \<Rightarrow> False
    | Inr e \<Rightarrow> \<not> is_terminal_state (is_terminal_state_array e) (Some 1) \<and>
        transition_table e ! 1 = [1, 2, 3, 0] \<and>
        mset (transition_table e ! 1) = mset [0..<4])"
proof -
  let ?cfg = "example_config 4 3 0 0 (1/4) (3/4) True True :: nat config"
  obtain e where e: "construct toy_samplers ?cfg = Inr e"
    using example_4_constructs by (cases "construct toy_samplers ?cfg") auto
  have c: "completely_connected ?cfg" "1 < state_space_size ?cfg" "state_space_size ?cfg = 4"
    by (simp_all add: example_config_def)
  have "case construct toy_samplers ?cfg of Inl err \<Rightarrow> False
        | Inr e \<Rightarrow> \<not> is_terminal_state (is_terminal_state_array e) (Some 1) \<and>
            transition_table e ! 1 = [1, 2, 3, 0]"
    by code_simp
  then have t: "\<not> is_terminal_state (is_terminal_state_array e) (Some 1)"
    "transition_table e ! 1 = [1, 2, 3, 0]" using e by simp_all
  from completely_connected_rows [OF e c(1) toy_sample_no_replace_ok c(2) t(1)]
  have m: "mset (transition_table e ! 1) = mset [0..<4]" unfolding c(3) .
  have "case construct toy_samplers ?cfg of Inl err \<Rightarrow> False
        | Inr e \<Rightarrow> \<not> is_terminal_state (is_terminal_state_array e) (Some 1) \<and>
            transition_table e ! 1 = [1, 2, 3, 0] \<and>
            mset (transition_table e ! 1) = mset [0..<4]"
    unfolding e using t m by simp
  with c(1,2) toy_sample_no_replace_ok show ?thesis by blast
qed

section \<open>The number of rewardable sequences\<close>

lemma gen_sequences_length:
  "gen_sequences perms non_term cs seqs clashes = Inr (seqs', clashes') \<Longrightarrow>
   length seqs' = length seqs + length cs"
proof (induction cs arbitrary: seqs clashes)
  case Nil
  then show ?case by simp
next
  case (Cons c cs)
  from Cons.prems obtain seq where
    "gen_sequences perms non_term cs (seqs @ [seq]) (if seq \<in> set seqs then Suc clashes else clashes)
      = Inr (seqs', clashes')"
    by (auto split: sum.splits)
  from Cons.IH [OF this] show ?case by simp
qed

lemma init_reward_function_no_repeats:
  assumes "init_reward_function ops cfg nts g = Inr (S, g')"
  shows "\<not> repeats_in_sequences cfg"
    and "\<exists>seqs. S = replicate (sequence_length cfg - 1) [] @ [seqs] \<and>
          length seqs = nat (int_trunc (float_times_int ops (reward_density cfg)
            (wrap64 (prod_list [int (state_space_size cfg) - nts + 1 - int (sequence_length cfg)
                                 ..int (state_space_size cfg) - nts]))))"
proof -
  show nr: "\<not> repeats_in_sequences cfg"
    using assms by (auto simp: init_reward_function_def Let_def split: sum.splits if_splits)
  let ?perms = "[int (state_space_size cfg) - nts + 1 - int (sequence_length cfg)
                  ..int (state_space_size cfg) - nts]"
  let ?N = "wrap64 (prod_list ?perms)"
  let ?num = "int_trunc (float_times_int ops (reward_density cfg) ?N)"
  from assms nr obtain sel g1 where
    sel: "choice_no_replace ops ?N ?num g = Inr (sel, g1)"
    by (auto simp: init_reward_function_def Let_def split: sum.splits)
  from assms nr sel have len: "\<not> int (length sel) < ?num"
    by (auto simp: init_reward_function_def Let_def split: if_splits)
  from assms nr sel len obtain seqs tc where
    gs: "gen_sequences ?perms (nat (int (state_space_size cfg) - nts)) (take (nat ?num) sel) [] 0
           = Inr (seqs, tc)"
    by (auto simp: init_reward_function_def Let_def split: sum.splits)
  from assms nr sel len gs have S: "S = replicate (sequence_length cfg - 1) [] @ [seqs]"
    by (auto simp: init_reward_function_def Let_def split: if_splits)
  have "length seqs = length (take (nat ?num) sel)"
    using gen_sequences_length [OF gs] by simp
  also have "\<dots> = nat ?num" using len by simp
  finally show "\<exists>seqs. S = replicate (sequence_length cfg - 1) [] @ [seqs] \<and>
          length seqs = nat ?num"
    using S by blast
qed

lemma prod_zero_beyond: "n < k \<Longrightarrow> (\<Prod>i<k. n - i) = (0::nat)"
  by (rule prod_zero) auto

lemma prod_upto_permutations:
  "prod_list [int n + 1 - int k..int n] = int (num_permutations n k)"
proof (induction k)
  case 0
  then show ?case by (simp add: num_permutations_def)
next
  case (Suc k)
  have e1: "int n + 1 - int (Suc k) = int n - int k" and e2: "int n - int k + 1 = int n + 1 - int k"
    by simp_all
  have "[int n - int k..int n] = (int n - int k) # [int n - int k + 1..int n]"
    by (subst upto_rec1) simp_all
  then have "[int n + 1 - int (Suc k)..int n] = (int n - int k) # [int n + 1 - int k..int n]"
    unfolding e1 e2 .
  then have "prod_list [int n + 1 - int (Suc k)..int n]
      = (int n - int k) * int (num_permutations n k)"
    using Suc.IH by simp
  also have "\<dots> = int (num_permutations n (Suc k))"
  proof (cases "k \<le> n")
    case True
    then show ?thesis by (simp add: num_permutations_def of_nat_diff)
  next
    case False
    then have "num_permutations n k = 0" "num_permutations n (Suc k) = 0"
      unfolding num_permutations_def by (simp_all only: prod_zero_beyond) 
    then show ?thesis by simp
  qed
  finally show ?case .
qed

lemma wrap64_id: "0 \<le> x \<Longrightarrow> x < 2 ^ 63 \<Longrightarrow> wrap64 x = x"
  by (simp add: wrap64_def)

text \<open>
  \<^bold>\<open>Claim C4\<close> fails as stated: the code truncates where the claim rounds. With four states,
  one of them terminal, sequences of length 1 without repeats and \<^verbatim>\<open>reward_density\<close> 5/8,
  there are 3 possible sequences and \<open>5/8 * 3 = 1.875\<close>, which is a double, so that the
  floating-point product is the real product: the environment has one rewardable sequence,
  and the rounded value is 2.
\<close>

theorem reward_set_cardinality_counterexample:
  "(case construct toy_samplers (example_config 4 1 0 0 (1/4) (5/8) True False) of
      Inl err \<Rightarrow> False
    | Inr e \<Rightarrow> rewardable_sequences e = [[0]] \<and> spec_num_possible_sequences e = 3 \<and>
        reward_density (config e) = 5/8 \<and>
        int (length (rewardable_sequences e))
          \<noteq> round (reward_density (config e) * real (spec_num_possible_sequences e))) \<and>
   round (5/8 * 3 :: real) = 2"
proof -
  have r: "round (5/8 * 3 :: real) = 2" by (simp add: round_def)
  have "case construct toy_samplers (example_config 4 1 0 0 (1/4) (5/8) True False) of
      Inl err \<Rightarrow> False
    | Inr e \<Rightarrow> rewardable_sequences e = [[0]] \<and> spec_num_possible_sequences e = 3 \<and>
        reward_density (config e) = 5/8"
    by code_simp
  moreover have "int (length (rewardable_sequences e))
          \<noteq> round (reward_density (config e) * real (spec_num_possible_sequences e))"
    if "rewardable_sequences e = [[0]]" "spec_num_possible_sequences e = 3"
      "reward_density (config e) = 5/8" for e :: "nat env"
    unfolding that using r by simp
  ultimately show ?thesis using r
    by (cases "construct toy_samplers (example_config 4 1 0 0 (1/4) (5/8) True False)") auto
qed

text \<open>
  \<^bold>\<open>Claim C4, amended.\<close> In every constructed discrete environment without repeats in
  sequences, with the terminal state density in \<open>[0, 1]\<close>, a reward density that is not
  negative, at most \<open>2^53\<close> states and fewer than \<open>2^63\<close> possible sequences, the number of
  rewardable sequences is \<^verbatim>\<open>int(reward_density * N)\<close>: the integer part of the floating-point
  product, which is truncated and not rounded, where \<open>N\<close> is the number of
  \<^verbatim>\<open>sequence_length\<close>-permutations of the non-terminal states.
\<close>

theorem reward_set_cardinality:
  assumes "construct ops cfg = Inr e"
    and "\<not> repeats_in_sequences cfg"
    and "float_times_int_ok ops"
    and "0 \<le> terminal_state_density cfg" and "terminal_state_density cfg \<le> 1"
    and "state_space_size cfg \<le> 2 ^ 53"
    and "0 \<le> reward_density cfg"
    and "spec_num_possible_sequences e < 2 ^ 63"
  shows "spec_num_possible_sequences e =
           num_permutations (state_space_size cfg - nat (num_terminal_states e)) (sequence_length cfg) \<and>
         int (length (rewardable_sequences e)) =
           \<lfloor>float_times_int ops (reward_density cfg) (int (spec_num_possible_sequences e))\<rfloor>"
proof -
  let ?n = "state_space_size cfg" and ?k = "sequence_length cfg"
  let ?nts = "num_terminal_states e"
  let ?nt = "?n - nat ?nts"
  have cfg: "config e = cfg" by (rule construct_Inr(1) [OF assms(1)])
  have kpos: "?k \<noteq> 0" by (rule construct_Inr(2) [OF assms(1)])
  from terminal_states_bounds [OF assms(1,3,4,5,6)]
  have b: "1 \<le> ?nts" "?nts \<le> int ?n" by simp_all
  then have nt: "int ?n - ?nts = int ?nt" by simp
  have N: "spec_num_possible_sequences e = num_permutations ?nt ?k"
    using assms(2) cfg by (simp add: spec_num_possible_sequences_def)
  from construct_Inr(6) [OF assms(1)] obtain g g' where
    "init_reward_function ops cfg ?nts g = Inr (specific_sequences e, g')" by blast
  from init_reward_function_no_repeats(2) [OF this] obtain seqs where
    S: "specific_sequences e = replicate (?k - 1) [] @ [seqs]"
    and len: "length seqs = nat (int_trunc (float_times_int ops (reward_density cfg)
            (wrap64 (prod_list [int ?n - ?nts + 1 - int ?k..int ?n - ?nts]))))"
    by blast
  have "prod_list [int ?n - ?nts + 1 - int ?k..int ?n - ?nts] = int (num_permutations ?nt ?k)"
    unfolding nt by (rule prod_upto_permutations)
  moreover have "wrap64 (int (num_permutations ?nt ?k)) = int (num_permutations ?nt ?k)"
    using assms(8) N by (intro wrap64_id) simp_all
  ultimately have len': "length seqs =
      nat (int_trunc (float_times_int ops (reward_density cfg) (int (num_permutations ?nt ?k))))"
    using len by simp
  have nn: "0 \<le> float_times_int ops (reward_density cfg) (int (num_permutations ?nt ?k))"
    using assms(3,7) unfolding float_times_int_ok_def by simp
  have len'': "int (length seqs) =
      \<lfloor>float_times_int ops (reward_density cfg) (int (num_permutations ?nt ?k))\<rfloor>"
    unfolding len' int_trunc_nonneg [OF nn] using nn by simp
  have "rewardable_sequences e = seqs"
    using S cfg by (simp add: rewardable_sequences_def nth_append)
  then show ?thesis using N len'' by simp
qed

lemma example_C4_constructs:
  "\<not> isl (construct toy_samplers (example_config 4 1 0 0 (1/4) (5/8) True False))"
  by code_simp

text \<open>
  The theorem at the configuration of the counterexample: 3 possible sequences, the product
  \<open>5/8 * 3 = 1.875\<close>, one rewardable sequence.
\<close>

theorem reward_set_cardinality_witness:
  "\<not> repeats_in_sequences (example_config 4 1 0 0 (1/4) (5/8) True False :: nat config) \<and>
   float_times_int_ok toy_samplers \<and>
   (0::real) \<le> 1/4 \<and> (1/4::real) \<le> 1 \<and> (4::nat) \<le> 2 ^ 53 \<and> (0::real) \<le> 5/8 \<and>
   (case construct toy_samplers (example_config 4 1 0 0 (1/4) (5/8) True False) of
      Inl err \<Rightarrow> False
    | Inr e \<Rightarrow> spec_num_possible_sequences e = 3 \<and> (3::nat) < 2 ^ 63 \<and>
        length (rewardable_sequences e) = 1)"
proof -
  let ?cfg = "example_config 4 1 0 0 (1/4) (5/8) True False :: nat config"
  obtain e where e: "construct toy_samplers ?cfg = Inr e"
    using example_C4_constructs by (cases "construct toy_samplers ?cfg") auto
  have c: "\<not> repeats_in_sequences ?cfg" "terminal_state_density ?cfg = 1/4"
    "reward_density ?cfg = 5/8" "state_space_size ?cfg = 4"
    by (simp_all add: example_config_def)
  have "case construct toy_samplers ?cfg of Inl err \<Rightarrow> False
        | Inr e \<Rightarrow> spec_num_possible_sequences e = 3"
    by code_simp
  then have n: "spec_num_possible_sequences e = 3" using e by simp
  have h: "0 \<le> terminal_state_density ?cfg" "terminal_state_density ?cfg \<le> 1"
    "state_space_size ?cfg \<le> 2 ^ 53"
    "0 \<le> reward_density ?cfg" "spec_num_possible_sequences e < 2 ^ 63"
    using c n by simp_all
  have fl: "\<lfloor>5 / 8 * 3 :: real\<rfloor> = 1" by (rule floor_unique) simp_all
  from reward_set_cardinality [OF e c(1) toy_float_times_int_ok h]
  have "int (length (rewardable_sequences e)) = 1"
    unfolding c n toy_float_times_int using fl by simp
  then have "length (rewardable_sequences e) = 1" by simp
  then have "case construct toy_samplers ?cfg of Inl err \<Rightarrow> False
    | Inr e \<Rightarrow> spec_num_possible_sequences e = 3 \<and> (3::nat) < 2 ^ 63 \<and>
        length (rewardable_sequences e) = 1"
    unfolding e using n by simp
  with c(1) toy_float_times_int_ok show ?thesis by simp
qed

section \<open>Steps, runs and the sparse reward\<close>

lemma noisy_next_state_fields:
  assumes "noisy_next_state ops e ns0 = Inr (ns, e0)"
  shows "config e0 = config e" "specific_sequences e0 = specific_sequences e"
    "augmented_state e0 = augmented_state e" "np_random e0 = np_random e"
    "total_reward_episode e0 = total_reward_episode e"
    "is_terminal_state_array e0 = is_terminal_state_array e"
    "reached_terminal e0 = reached_terminal e"
    "possible_remaining_sequences e0 = possible_remaining_sequences e"
    "transition_table e0 = transition_table e"
    "transition_noise (config e) = None \<longrightarrow> ns = ns0 \<and> e0 = e"
  using assms
  by (auto simp: noisy_next_state_def Let_def split: option.splits if_splits sum.splits)

lemma transition_function_fields:
  assumes "transition_function ops e st a False = Inr (s', e1)"
  shows "config e1 = config e" "specific_sequences e1 = specific_sequences e"
    "augmented_state e1 = tl (augmented_state e) @ [Some s']" "augmented_state e \<noteq> []"
    "np_random e1 = np_random e" "total_reward_episode e1 = total_reward_episode e"
    "is_terminal_state_array e1 = is_terminal_state_array e"
    "reached_terminal e1 = reached_terminal e"
    "possible_remaining_sequences e1 = possible_remaining_sequences e"
    "transition_table e1 = transition_table e"
    "st < length (transition_table e)" "a < length (transition_table e ! st)"
    "transition_noise (config e) = None \<longrightarrow> s' = transition_table e ! st ! a"
proof -
  from assms have idx: "st < length (transition_table e) \<and> a < length (transition_table e ! st)"
    by (simp add: transition_function_def Let_def split: if_splits)
  then show "st < length (transition_table e)" "a < length (transition_table e ! st)" by simp_all
  from assms idx obtain e0 where
    n: "noisy_next_state ops e (transition_table e ! st ! a) = Inr (s', e0)"
    and ne: "augmented_state e0 \<noteq> []"
    and e1: "e1 = e0\<lparr>augmented_state := tl (augmented_state e0) @ [Some s'],
               total_transitions_episode := total_transitions_episode e0 + 1\<rparr>"
    by (auto simp: transition_function_def Let_def split: if_splits sum.splits)
  note f = noisy_next_state_fields [OF n]
  show "config e1 = config e" "specific_sequences e1 = specific_sequences e"
    "augmented_state e1 = tl (augmented_state e) @ [Some s']" "augmented_state e \<noteq> []"
    "np_random e1 = np_random e" "total_reward_episode e1 = total_reward_episode e"
    "is_terminal_state_array e1 = is_terminal_state_array e"
    "reached_terminal e1 = reached_terminal e"
    "possible_remaining_sequences e1 = possible_remaining_sequences e"
    "transition_table e1 = transition_table e"
    "transition_noise (config e) = None \<longrightarrow> s' = transition_table e ! st ! a"
    using f ne e1 by simp_all
qed

text \<open>The reward noise drawn by \<^verbatim>\<open>reward_function\<close> and the generator after the draw.\<close>

lemma reward_function_fields:
  assumes "reward_function e st a False = Inr (r, e')"
  shows "config e' = config e" "specific_sequences e' = specific_sequences e"
    "augmented_state e' = augmented_state e"
    "is_terminal_state_array e' = is_terminal_state_array e"
    "reached_terminal e' = reached_terminal e"
    "transition_table e' = transition_table e"
    "curr_state e' = curr_state e"
  using assms
  by (auto simp: reward_function_def Let_def split: if_splits sum.splits prod.splits option.splits)

lemma draw_reward_noise_fields [simp]:
  "draw_reward_noise (e\<lparr>possible_remaining_sequences := x\<rparr>) = draw_reward_noise e"
  "draw_reward_noise (e\<lparr>curr_state := y\<rparr>) = draw_reward_noise e"
  by (simp_all add: draw_reward_noise_def split: option.splits)

lemma reward_function_sparse:
  assumes "\<not> make_denser (config e)" and "sequence_length (config e) \<noteq> 0"
    and "sequence_length (config e) \<le> length (specific_sequences e)"
  shows "reward_function e st a False =
     Inr (sparse_reward e (augmented_state e) (sequence_length (config e) - 1)
            + fst (draw_reward_noise e) + reward_shift (config e),
          e\<lparr>np_random := snd (draw_reward_noise e),
            total_abs_noise_in_reward_episode :=
              total_abs_noise_in_reward_episode e + \<bar>fst (draw_reward_noise e)\<bar>,
            total_reward_episode := total_reward_episode e
              + sparse_reward e (augmented_state e) (sequence_length (config e) - 1)\<rparr>)"
proof -
  have "py_index (int (sequence_length (config e)) - 1) (length (specific_sequences e))
      = Inr (sequence_length (config e) - 1)"
    using assms(2,3) by (auto simp: py_index_def)
  then show ?thesis
    using assms(1) by (simp add: reward_function_def Let_def split: prod.splits)
qed

lemma sparse_reward_fields [simp]:
  "sparse_reward (e\<lparr>curr_state := y\<rparr>) sc i = sparse_reward e sc i"
  by (simp add: sparse_reward_def augmented_state_length_def)

lemma step_Inr:
  assumes "step ops e a False = Inr ((s, r, dn), e')"
  obtains e1 r0 where
    "transition_function ops e (curr_state e) a False = Inr (s, e1)"
    "reward_function (e1\<lparr>curr_state := s\<rparr>) (OneState s) a False = Inr (r0, e')"
    "dn = (is_terminal_state (is_terminal_state_array e') (last (augmented_state e'))
            \<or> reached_terminal e')"
    "r = (if dn then r0 + term_state_reward (config e') * reward_scale (config e') else r0)"
proof -
  from assms obtain s1 e1 where
    tf: "transition_function ops e (curr_state e) a False = Inr (s1, e1)"
    by (cases "transition_function ops e (curr_state e) a False") (auto simp: step_def)
  from assms tf obtain r0 e2 where
    rf: "reward_function (e1\<lparr>curr_state := s1\<rparr>) (OneState s1) a False = Inr (r0, e2)"
    by (cases "reward_function (e1\<lparr>curr_state := s1\<rparr>) (OneState s1) a False")
       (auto simp: step_def)
  from assms tf rf have "s1 = s \<and> e2 = e' \<and>
    dn = (is_terminal_state (is_terminal_state_array e') (last (augmented_state e'))
            \<or> reached_terminal e') \<and>
    r = (if dn then r0 + term_state_reward (config e') * reward_scale (config e') else r0)"
    by (auto simp: step_def Let_def split: if_splits)
  with tf rf that show ?thesis by blast
qed

lemma step_sparse:
  assumes "step ops e a False = Inr ((s, r, dn), e')"
    and "\<not> make_denser (config e)" and "sequence_length (config e) \<noteq> 0"
    and "sequence_length (config e) \<le> length (specific_sequences e)"
  shows "total_reward_episode e' = total_reward_episode e
        + sparse_reward e' (augmented_state e') (sequence_length (config e) - 1)"
    "r = sparse_reward e' (augmented_state e') (sequence_length (config e) - 1)
          + fst (draw_reward_noise e) + reward_shift (config e)
          + (if dn then term_state_reward (config e) * reward_scale (config e) else 0)"
proof -
  from assms(1) obtain e1 r0 where
    tf: "transition_function ops e (curr_state e) a False = Inr (s, e1)"
    and rf0: "reward_function (e1\<lparr>curr_state := s\<rparr>) (OneState s) a False = Inr (r0, e')"
    and r: "r = (if dn then r0 + term_state_reward (config e') * reward_scale (config e') else r0)"
    by (rule step_Inr)
  note f = transition_function_fields [OF tf]
  let ?e2 = "e1\<lparr>curr_state := s\<rparr>"
  have h: "\<not> make_denser (config ?e2)" "sequence_length (config ?e2) \<noteq> 0"
    "sequence_length (config ?e2) \<le> length (specific_sequences ?e2)"
    using assms(2-4) f(1,2) by simp_all
  note rf = reward_function_sparse [OF h, of "OneState s" a]
  let ?base = "sparse_reward e1 (augmented_state e1) (sequence_length (config e) - 1)"
  have dn1: "draw_reward_noise e1 = draw_reward_noise e"
    using f(1,5) by (simp add: draw_reward_noise_def split: option.splits)
  from rf rf0 have
    e': "e' = ?e2\<lparr>np_random := snd (draw_reward_noise e),
            total_abs_noise_in_reward_episode :=
              total_abs_noise_in_reward_episode e1 + \<bar>fst (draw_reward_noise e)\<bar>,
            total_reward_episode := total_reward_episode e1 + ?base\<rparr>"
    and r0: "r0 = ?base + fst (draw_reward_noise e) + reward_shift (config e)"
    using f(1) dn1 by simp_all
  have sb: "sparse_reward e' (augmented_state e') (sequence_length (config e) - 1) = ?base"
    unfolding e' by (simp add: sparse_reward_def augmented_state_length_def)
  have c: "config e' = config e" unfolding e' using f(1) by simp
  show "total_reward_episode e' = total_reward_episode e
        + sparse_reward e' (augmented_state e') (sequence_length (config e) - 1)"
    unfolding sb using e' f(6) by simp
  show "r = sparse_reward e' (augmented_state e') (sequence_length (config e) - 1)
          + fst (draw_reward_noise e) + reward_shift (config e)
          + (if dn then term_state_reward (config e) * reward_scale (config e) else 0)"
    unfolding sb using r r0 c by simp
qed

lemma step_fields:
  assumes "step ops e a False = Inr ((s, r, dn), e')"
  shows "config e' = config e" "specific_sequences e' = specific_sequences e"
    "augmented_state e' = tl (augmented_state e) @ [Some s]"
    "is_terminal_state_array e' = is_terminal_state_array e"
    "reached_terminal e' = reached_terminal e"
    "transition_table e' = transition_table e"
    "curr_state e' = s"
    "dn = (is_terminal_state (is_terminal_state_array e) (Some s) \<or> reached_terminal e)"
    "curr_state e < length (transition_table e)" "a < length (transition_table e ! curr_state e)"
    "transition_noise (config e) = None \<longrightarrow> s = transition_table e ! curr_state e ! a"
proof -
  from assms(1) obtain e1 r0 where
    tf: "transition_function ops e (curr_state e) a False = Inr (s, e1)"
    and rf: "reward_function (e1\<lparr>curr_state := s\<rparr>) (OneState s) a False = Inr (r0, e')"
    and dn: "dn = (is_terminal_state (is_terminal_state_array e') (last (augmented_state e'))
            \<or> reached_terminal e')"
    by (rule step_Inr)
  note f = transition_function_fields [OF tf]
  note g = reward_function_fields [OF rf]
  show "config e' = config e" "specific_sequences e' = specific_sequences e"
    "augmented_state e' = tl (augmented_state e) @ [Some s]"
    "is_terminal_state_array e' = is_terminal_state_array e"
    "reached_terminal e' = reached_terminal e"
    "transition_table e' = transition_table e"
    "curr_state e' = s"
    using f g by simp_all
  then show "dn = (is_terminal_state (is_terminal_state_array e) (Some s) \<or> reached_terminal e)"
    using dn by simp
  show "curr_state e < length (transition_table e)" "a < length (transition_table e ! curr_state e)"
    "transition_noise (config e) = None \<longrightarrow> s = transition_table e ! curr_state e ! a"
    using f by simp_all
qed

lemma run_append:
  "run ops e (as @ bs) =
     (case run ops e as of
        Inl err \<Rightarrow> Inl err
      | Inr (outs, e1) \<Rightarrow>
          (case run ops e1 bs of
             Inl err \<Rightarrow> Inl err
           | Inr (outs', e2) \<Rightarrow> Inr (outs @ outs', e2)))"
  by (induction as arbitrary: e) (auto split: sum.splits)

lemma run_snoc_Inr:
  assumes "run ops e (as @ [a]) = Inr (outs, e')"
  obtains outs' e1 out where "run ops e as = Inr (outs', e1)"
    "step ops e1 a False = Inr (out, e')" "outs = outs' @ [out]"
proof -
  from assms obtain outs' e1 where r: "run ops e as = Inr (outs', e1)"
    by (cases "run ops e as") (auto simp: run_append)
  from assms r obtain out where "step ops e1 a False = Inr (out, e')" "outs = outs' @ [out]"
    by (cases "step ops e1 a False") (auto simp: run_append)
  with r that show ?thesis by blast
qed

lemma drop_snoc: "n \<le> length xs \<Longrightarrow> drop n xs @ [y] = drop n (xs @ [y])"
  by simp

lemma run_invariant:
  assumes "run ops e0 as = Inr (outs, e)" and "augmented_state e0 = pad @ [Some (curr_state e0)]"
  shows "config e = config e0 \<and> specific_sequences e = specific_sequences e0 \<and>
    is_terminal_state_array e = is_terminal_state_array e0 \<and>
    transition_table e = transition_table e0 \<and>
    reached_terminal e = reached_terminal e0 \<and>
    length outs = length as \<and>
    augmented_state e = drop (length as) (pad @ map Some (curr_state e0 # map fst outs)) \<and>
    curr_state e = last (curr_state e0 # map fst outs)"
  using assms(1)
proof (induction as arbitrary: outs e rule: rev_induct)
  case Nil
  then show ?case using assms(2) by auto
next
  case (snoc a as)
  from snoc.prems obtain outs' e1 out where
    r: "run ops e0 as = Inr (outs', e1)" and st: "step ops e1 a False = Inr (out, e)"
    and o: "outs = outs' @ [out]"
    by (rule run_snoc_Inr)
  obtain s r' dn where out: "out = (s, r', dn)" by (cases out)
  note ih = snoc.IH [OF r]
  note f = step_fields [OF st [unfolded out]]
  let ?xs = "pad @ map Some (curr_state e0 # map fst outs')"
  have len: "length as < length ?xs" using ih by simp
  have "augmented_state e = tl (drop (length as) ?xs) @ [Some s]" using f(3) ih by simp
  also have "\<dots> = drop (Suc (length as)) ?xs @ [Some s]" by (simp only: drop_Suc tl_drop)
  also have "\<dots> = drop (Suc (length as)) (?xs @ [Some s])"
  proof (rule drop_snoc)
    show "Suc (length as) \<le> length ?xs" using len by linarith
  qed
  finally have "augmented_state e =
      drop (length (as @ [a])) (pad @ map Some (curr_state e0 # map fst outs))"
    using o out by simp
  then show ?case using ih f o out by simp
qed

lemma py_slice_drop: "py_slice 1 (d + k + 1 - d) (drop t xs) = take k (drop (t + 1) xs)"
  by (simp add: py_slice_def)

lemma drop_replicate_prefix: "xs = replicate n a @ ys \<Longrightarrow> drop n xs = ys"
  by simp

lemma take_Cons_pos: "k \<noteq> 0 \<Longrightarrow> take k (x # xs) = x # take (k - 1) xs"
  by (cases k) simp_all

lemma sparse_window:
  assumes "k \<noteq> 0" and "length hist = t + 1"
  shows "py_slice 1 (d + k + 1 - d) (drop t (replicate (k + d) None @ map Some hist))
            \<in> set (map as_states seqs)
         \<longleftrightarrow> d + k \<le> t + 1 \<and> take k (drop (t + 1 - d - k) hist) \<in> set seqs"
proof -
  let ?padded = "replicate (k + d) None @ map Some hist"
  have w: "py_slice 1 (d + k + 1 - d) (drop t ?padded) = take k (drop (t + 1) ?padded)"
    by (rule py_slice_drop)
  show ?thesis
  proof (cases "d + k \<le> t + 1")
    case True
    define m where "m = t + 1 - d - k"
    have t: "t + 1 = length (replicate (k + d) (None :: nat option)) + m"
      using True by (simp add: m_def)
    have "drop (t + 1) ?padded = map Some (drop m hist)"
      unfolding t drop_append by (simp add: drop_map)
    then have dr: "drop (t + 1) ?padded = map Some (drop (t + 1 - d - k) hist)"
      by (simp only: m_def)
    have "take k (drop (t + 1) ?padded) = take k (map Some (drop (t + 1 - d - k) hist))"
      by (simp only: dr)
    also have "\<dots> = map Some (take k (drop (t + 1 - d - k) hist))" by (rule take_map)
    finally have "take k (drop (t + 1) ?padded) = map Some (take k (drop (t + 1 - d - k) hist))" .
    moreover have "map Some xs \<in> set (map as_states seqs) \<longleftrightarrow> xs \<in> set seqs" for xs :: "nat list"
      by (auto simp: as_states_def)
    ultimately show ?thesis using True w by simp
  next
    case False
    then obtain j where j: "k + d - (t + 1) = Suc j" by (cases "k + d - (t + 1)") auto
    have kd: "k + d = (t + 1) + Suc j" using j False by linarith
    have "?padded = replicate (t + 1) None @ (None # replicate j None @ map Some hist)"
      unfolding kd by (simp add: replicate_add replicate_append_same)
    then have "drop (t + 1) ?padded = None # replicate j None @ map Some hist"
      by (rule drop_replicate_prefix)
    then have "take k (drop (t + 1) ?padded) = take k (None # replicate j None @ map Some hist)"
      by (simp only:)
    also have "\<dots> = None # take (k - 1) (replicate j None @ map Some hist)"
      using assms(1) by (rule take_Cons_pos)
    finally obtain rest where "take k (drop (t + 1) ?padded) = None # rest" by blast
    then have "take k (drop (t + 1) ?padded) \<notin> set (map as_states seqs)"
      by (auto simp: as_states_def)
    then show ?thesis using False w by simp
  qed
qed

lemma construct_start:
  assumes "construct ops cfg = Inr e0"
  shows "augmented_state e0
           = replicate (sequence_length cfg + delay cfg) None @ [Some (curr_state e0)]"
    and "length (specific_sequences e0) = sequence_length cfg"
proof -
  obtain sd g where sg: "gen_seeds ops (seed cfg) = (sd, g)" by (cases "gen_seeds ops (seed cfg)")
  obtain nts arr warned where it: "init_terminal_states ops cfg = (nts, arr, warned)"
    by (cases "init_terminal_states ops cfg")
  from assms sg it obtain e' s0 where rs: "reset ops e' = Inr (s0, e0)"
    and e': "config e' = cfg"
    by (auto simp: construct_def split: if_splits sum.splits)
  from reset_fields(6,7) [OF rs] e'
  show "augmented_state e0
           = replicate (sequence_length cfg + delay cfg) None @ [Some (curr_state e0)]"
    by (simp add: augmented_state_length_def)
  from construct_Inr(6) [OF assms] obtain g g' where
    "init_reward_function ops cfg (num_terminal_states e0) g = Inr (specific_sequences e0, g')"
    by blast
  from init_reward_function_no_repeats(2) [OF this] construct_Inr(2) [OF assms]
  show "length (specific_sequences e0) = sequence_length cfg" by auto
qed

text \<open>
  \<^bold>\<open>Claim C1.\<close> In a constructed discrete environment with \<^verbatim>\<open>make_denser\<close> false, consider
  the last step of any run of steps from the start of the episode. Let \<open>rewarded\<close> say that the
  slice of the augmented state from 1 to \<open>L - delay\<close>, with \<open>L = delay + sequence_length + 1\<close>,
  is a rewardable sequence. The reward returned by the step is \<^verbatim>\<open>reward_scale\<close> if \<open>rewarded\<close>
  and 0 otherwise, plus the reward noise drawn, plus \<^verbatim>\<open>reward_shift\<close> (plus the terminal
  bonus when the step is terminal); the reward before noise and shift is what the step adds to
  \<^verbatim>\<open>total_reward_episode\<close>. And \<open>rewarded\<close> holds at step \<open>t\<close> if and only if the
  \<^verbatim>\<open>sequence_length\<close> states that end at step \<open>t - delay\<close> exist and form a rewardable
  sequence, where the state at step 0 is the start state of the episode.
\<close>

theorem sparse_reward_delay_law:
  assumes "construct ops cfg = Inr e0" and "\<not> make_denser cfg"
    and "run ops e0 (as @ [a]) = Inr (outs, e)"
  shows "\<exists>outs' e1 s r dn.
      run ops e0 as = Inr (outs', e1) \<and> step ops e1 a False = Inr ((s, r, dn), e) \<and>
      outs = outs' @ [(s, r, dn)] \<and>
      (let k = sequence_length cfg; d = delay cfg; L = d + k + 1;
           rewarded = (py_slice 1 (L - d) (augmented_state e)
                         \<in> set (map as_states (rewardable_sequences e)));
           base = (if rewarded then reward_scale cfg else 0);
           hist = curr_state e0 # map fst outs;
           t = length outs
       in r = base + fst (draw_reward_noise e1) + reward_shift cfg
                + (if dn then term_state_reward cfg * reward_scale cfg else 0) \<and>
          total_reward_episode e = total_reward_episode e1 + base \<and>
          (rewarded \<longleftrightarrow> d + k \<le> t + 1 \<and>
             take k (drop (t + 1 - d - k) hist) \<in> set (rewardable_sequences e)))"
proof -
  let ?k = "sequence_length cfg" and ?d = "delay cfg"
  from assms(3) obtain outs' e1 out where
    r: "run ops e0 as = Inr (outs', e1)" and st0: "step ops e1 a False = Inr (out, e)"
    and o: "outs = outs' @ [out]"
    by (rule run_snoc_Inr)
  obtain s r' dn where out: "out = (s, r', dn)" by (cases out)
  note st = st0 [unfolded out]
  have cfg0: "config e0 = cfg" by (rule construct_Inr(1) [OF assms(1)])
  have kpos: "?k \<noteq> 0" by (rule construct_Inr(2) [OF assms(1)])
  note start = construct_start [OF assms(1)]
  have start': "augmented_state e0 = replicate (?k + ?d) None @ [Some (curr_state e0)]"
    by (rule start(1))
  note inv1 = run_invariant [OF r start']
  note inv = run_invariant [OF assms(3) start']
  have c1: "config e1 = cfg" "specific_sequences e1 = specific_sequences e0"
    using inv1 cfg0 by simp_all
  have c: "config e = cfg" "specific_sequences e = specific_sequences e0"
    using inv cfg0 by simp_all
  have h: "\<not> make_denser (config e1)" "sequence_length (config e1) \<noteq> 0"
    "sequence_length (config e1) \<le> length (specific_sequences e1)"
    using assms(2) kpos c1 start(2) by simp_all
  note sp = step_sparse [OF st h]
  let ?rewarded = "py_slice 1 (?d + ?k + 1 - ?d) (augmented_state e)
                         \<in> set (map as_states (rewardable_sequences e))"
  have base: "sparse_reward e (augmented_state e) (?k - 1)
      = (if ?rewarded then reward_scale cfg else 0)"
    using c by (simp add: sparse_reward_def rewardable_sequences_def augmented_state_length_def
        add.commute)
  let ?hist = "curr_state e0 # map fst outs"
  have len: "length outs = length as + 1" using inv by simp
  have aug: "augmented_state e = drop (length outs) (replicate (?k + ?d) None @ map Some ?hist)"
    using inv by simp
  have lh: "length ?hist = length outs + 1" by simp
  have win: "?rewarded \<longleftrightarrow> ?d + ?k \<le> length outs + 1 \<and>
             take ?k (drop (length outs + 1 - ?d - ?k) ?hist) \<in> set (rewardable_sequences e)"
    unfolding aug by (rule sparse_window [OF kpos lh])
  have r': "r' = (if ?rewarded then reward_scale cfg else 0) + fst (draw_reward_noise e1)
      + reward_shift cfg + (if dn then term_state_reward cfg * reward_scale cfg else 0)"
    using sp(2) c1(1) base by simp
  have tot: "total_reward_episode e = total_reward_episode e1
      + (if ?rewarded then reward_scale cfg else 0)"
    using sp(1) c1(1) base by simp
  show ?thesis
    apply (rule exI [of _ outs'], rule exI [of _ e1], rule exI [of _ s], rule exI [of _ r'],
        rule exI [of _ dn])
    unfolding Let_def using r st o out r' tot win by blast
qed

theorem sparse_reward_delay_law_witness:
  "\<not> make_denser (example_config 4 1 1 0 (1/4) (5/8) True False :: nat config) \<and>
   (case construct toy_samplers (example_config 4 1 1 0 (1/4) (5/8) True False) of
      Inl err \<Rightarrow> False
    | Inr e0 \<Rightarrow>
        (case run toy_samplers e0 ([1] @ [0]) of
           Inl err \<Rightarrow> False
         | Inr (outs, e) \<Rightarrow>
             curr_state e0 = 0 \<and> rewardable_sequences e = [[0]] \<and>
             outs = [(1, 1, False), (1, 0, False)] \<and>
             augmented_state e = [Some 0, Some 1, Some 1] \<and>
             (\<exists>outs' e1 s r dn.
                run toy_samplers e0 [1] = Inr (outs', e1) \<and>
                step toy_samplers e1 0 False = Inr ((s, r, dn), e) \<and>
                outs = outs' @ [(s, r, dn)] \<and>
                r = 0 + fst (draw_reward_noise e1) + 0 + 0 \<and>
                \<not> ((1::nat) + 1 \<le> 2 + 1 \<and>
                   take 1 (drop (2 + 1 - 1 - 1) (curr_state e0 # map fst outs))
                     \<in> set (rewardable_sequences e)))))"
proof -
  let ?cfg = "example_config 4 1 1 0 (1/4) (5/8) True False :: nat config"
  have ev: "case construct toy_samplers ?cfg of
      Inl err \<Rightarrow> False
    | Inr e0 \<Rightarrow>
        (case run toy_samplers e0 ([1] @ [0]) of
           Inl err \<Rightarrow> False
         | Inr (outs, e) \<Rightarrow>
             curr_state e0 = 0 \<and> rewardable_sequences e = [[0]] \<and>
             outs = [(1, 1, False), (1, 0, False)] \<and>
             augmented_state e = [Some 0, Some 1, Some 1])"
    by code_simp
  then obtain e0 where e0: "construct toy_samplers ?cfg = Inr e0"
    by (cases "construct toy_samplers ?cfg") auto
  from ev e0 obtain outs e where run: "run toy_samplers e0 ([1] @ [0]) = Inr (outs, e)"
    by (cases "run toy_samplers e0 ([1] @ [0])") auto
  from ev e0 run have v: "curr_state e0 = 0" "rewardable_sequences e = [[0]]"
    "outs = [(1, 1, False), (1, 0, False)]" "augmented_state e = [Some 0, Some 1, Some 1]"
    by simp_all
  have c: "\<not> make_denser ?cfg" "sequence_length ?cfg = 1" "delay ?cfg = 1"
    "reward_scale ?cfg = 1" "reward_shift ?cfg = 0" "term_state_reward ?cfg = 0"
    by (simp_all add: example_config_def)
  from sparse_reward_delay_law [OF e0 c(1) run] obtain outs' e1 s r dn where
    w: "run toy_samplers e0 [1] = Inr (outs', e1)"
      "step toy_samplers e1 0 False = Inr ((s, r, dn), e)"
      "outs = outs' @ [(s, r, dn)]"
    and law: "let k = sequence_length ?cfg; d = delay ?cfg; L = d + k + 1;
           rewarded = (py_slice 1 (L - d) (augmented_state e)
                         \<in> set (map as_states (rewardable_sequences e)));
           base = (if rewarded then reward_scale ?cfg else 0);
           hist = curr_state e0 # map fst outs;
           t = length outs
       in r = base + fst (draw_reward_noise e1) + reward_shift ?cfg
                + (if dn then term_state_reward ?cfg * reward_scale ?cfg else 0) \<and>
          total_reward_episode e = total_reward_episode e1 + base \<and>
          (rewarded \<longleftrightarrow> d + k \<le> t + 1 \<and>
             take k (drop (t + 1 - d - k) hist) \<in> set (rewardable_sequences e))"
    by blast
  have nr: "\<not> py_slice 1 (1 + 1 + 1 - 1) (augmented_state e)
                         \<in> set (map as_states (rewardable_sequences e))"
    unfolding v by (simp add: py_slice_def as_states_def)
  have lo: "length outs = 2" unfolding v by simp
  from law have r: "r = 0 + fst (draw_reward_noise e1) + 0 + 0"
    and nw: "\<not> ((1::nat) + 1 \<le> 2 + 1 \<and>
                   take 1 (drop (2 + 1 - 1 - 1) (curr_state e0 # map fst outs))
                     \<in> set (rewardable_sequences e))"
    unfolding Let_def c lo using nr by simp_all
  have ex: "\<exists>outs' e1 s r dn.
                run toy_samplers e0 [1] = Inr (outs', e1) \<and>
                step toy_samplers e1 0 False = Inr ((s, r, dn), e) \<and>
                outs = outs' @ [(s, r, dn)] \<and>
                r = 0 + fst (draw_reward_noise e1) + 0 + 0 \<and>
                \<not> ((1::nat) + 1 \<le> 2 + 1 \<and>
                   take 1 (drop (2 + 1 - 1 - 1) (curr_state e0 # map fst outs))
                     \<in> set (rewardable_sequences e))"
    using w r nw by blast
  show ?thesis unfolding e0 run sum.case prod.case by (intro conjI c(1) v ex)
qed

section \<open>The dense reward\<close>

lemma dense_reward_cong:
  assumes "config e = config e'"
    and "possible_remaining_sequences e = possible_remaining_sequences e'"
  shows "dense_reward e sc = dense_reward e' sc"
  unfolding dense_reward_def curr_seq_being_checked_def augmented_state_length_def assms
  by (rule refl)

lemma rebuild_cong:
  assumes "config e = config e'" and "specific_sequences e = specific_sequences e'"
  shows "rebuild_possible_remaining_sequences e sc = rebuild_possible_remaining_sequences e' sc"
  unfolding rebuild_possible_remaining_sequences_def curr_seq_being_checked_def
    augmented_state_length_def all_specific_sequences_def assms
  by (rule refl)

lemma length_rebuild:
  "length (rebuild_possible_remaining_sequences e sc) = sequence_length (config e)"
  by (simp add: rebuild_possible_remaining_sequences_def)

lemma reward_function_dense:
  assumes "make_denser (config e)"
    and "sequence_length (config e) \<le> length (specific_sequences e)"
    and "sequence_length (config e) \<le> length (possible_remaining_sequences e)"
  shows "reward_function e st a False =
     Inr (dense_reward e (augmented_state e) + fst (draw_reward_noise e) + reward_shift (config e),
          e\<lparr>possible_remaining_sequences :=
               rebuild_possible_remaining_sequences e (augmented_state e),
            np_random := snd (draw_reward_noise e),
            total_abs_noise_in_reward_episode :=
              total_abs_noise_in_reward_episode e + \<bar>fst (draw_reward_noise e)\<bar>,
            total_reward_episode := total_reward_episode e
              + dense_reward e (augmented_state e)\<rparr>)"
  using assms by (simp add: reward_function_def Let_def split: prod.splits)

lemma step_dense:
  assumes "step ops e a False = Inr ((s, r, dn), e')"
    and "make_denser (config e)"
    and "sequence_length (config e) \<le> length (specific_sequences e)"
    and "sequence_length (config e) \<le> length (possible_remaining_sequences e)"
  shows "total_reward_episode e' = total_reward_episode e + dense_reward e (augmented_state e')"
    "r = dense_reward e (augmented_state e')
          + fst (draw_reward_noise e) + reward_shift (config e)
          + (if dn then term_state_reward (config e) * reward_scale (config e) else 0)"
    "possible_remaining_sequences e' = rebuild_possible_remaining_sequences e (augmented_state e')"
proof -
  from assms(1) obtain e1 r0 where
    tf: "transition_function ops e (curr_state e) a False = Inr (s, e1)"
    and rf0: "reward_function (e1\<lparr>curr_state := s\<rparr>) (OneState s) a False = Inr (r0, e')"
    and r: "r = (if dn then r0 + term_state_reward (config e') * reward_scale (config e') else r0)"
    by (rule step_Inr)
  note f = transition_function_fields [OF tf]
  let ?e2 = "e1\<lparr>curr_state := s\<rparr>"
  have h: "make_denser (config ?e2)"
    "sequence_length (config ?e2) \<le> length (specific_sequences ?e2)"
    "sequence_length (config ?e2) \<le> length (possible_remaining_sequences ?e2)"
    using assms(2-4) f(1,2,9) by simp_all
  note rf = reward_function_dense [OF h, of "OneState s" a]
  have dn1: "draw_reward_noise e1 = draw_reward_noise e"
    using f(1,5) by (simp add: draw_reward_noise_def split: option.splits)
  have dr: "dense_reward ?e2 (augmented_state e1) = dense_reward e (augmented_state e1)"
    by (rule dense_reward_cong) (simp_all add: f)
  have rb: "rebuild_possible_remaining_sequences ?e2 (augmented_state e1)
      = rebuild_possible_remaining_sequences e (augmented_state e1)"
    by (rule rebuild_cong) (simp_all add: f)
  from rf rf0 have
    e': "e' = ?e2\<lparr>possible_remaining_sequences :=
               rebuild_possible_remaining_sequences e (augmented_state e1),
            np_random := snd (draw_reward_noise e),
            total_abs_noise_in_reward_episode :=
              total_abs_noise_in_reward_episode e1 + \<bar>fst (draw_reward_noise e)\<bar>,
            total_reward_episode := total_reward_episode e1 + dense_reward e (augmented_state e1)\<rparr>"
    and r0: "r0 = dense_reward e (augmented_state e1) + fst (draw_reward_noise e)
                 + reward_shift (config e)"
    using f(1) dn1 dr rb by simp_all
  have a': "augmented_state e' = augmented_state e1" unfolding e' by simp
  have c: "config e' = config e" unfolding e' using f(1) by simp
  show "total_reward_episode e' = total_reward_episode e + dense_reward e (augmented_state e')"
    unfolding a' using e' f(6) by simp
  show "r = dense_reward e (augmented_state e')
          + fst (draw_reward_noise e) + reward_shift (config e)
          + (if dn then term_state_reward (config e) * reward_scale (config e) else 0)"
    unfolding a' using r r0 c by simp
  show "possible_remaining_sequences e' = rebuild_possible_remaining_sequences e (augmented_state e')"
    unfolding a' using e' by simp
qed

lemma fold_add_sum_list:
  "fold (\<lambda>j (r::real). r + f j) xs r0 = r0 + sum_list (map f xs)"
  by (induction xs arbitrary: r0) simp_all

lemma dense_reward_sum:
  "dense_reward e sc =
     (\<Sum>j = 1..sequence_length (config e).
        real (count_list (map as_states (possible_remaining_sequences e ! (j - 1)))
                (curr_seq_being_checked e sc j))
          * reward_scale (config e) * real j / real (sequence_length (config e)))"
proof -
  let ?f = "\<lambda>j. real (count_list (map as_states (possible_remaining_sequences e ! (j - 1)))
                (curr_seq_being_checked e sc j))
          * reward_scale (config e) * real j / real (sequence_length (config e))"
  have "dense_reward e sc = fold (\<lambda>j r. r + ?f j) [1..<sequence_length (config e) + 1] 0"
    unfolding dense_reward_def Let_def
    by (rule arg_cong [where f = "\<lambda>g. fold g _ _"]) (auto simp: fun_eq_iff count_list_0_iff)
  also have "\<dots> = sum_list (map ?f [1..<sequence_length (config e) + 1])"
    by (simp add: fold_add_sum_list)
  also have "\<dots> = sum ?f {1..<sequence_length (config e) + 1}"
    by (simp add: interv_sum_list_conv_sum_set_nat)
  also have "{1..<sequence_length (config e) + 1} = {1..sequence_length (config e)}" by auto
  finally show ?thesis .
qed

lemma run_Cons_Inr:
  assumes "run ops e (x # xs) = Inr (outs, e')"
  obtains out e1 outs' where "step ops e x False = Inr (out, e1)"
    "run ops e1 xs = Inr (outs', e')" "outs = out # outs'"
proof -
  from assms obtain out e1 where s: "step ops e x False = Inr (out, e1)"
    by (cases "step ops e x False") auto
  from assms s obtain outs' where "run ops e1 xs = Inr (outs', e')" "outs = out # outs'"
    by (cases "run ops e1 xs") auto
  with s that show ?thesis by blast
qed

lemma construct_dense_start:
  assumes "construct ops cfg = Inr e0" and "make_denser cfg"
  shows "possible_remaining_sequences e0 =
           map (take 1) (all_specific_sequences e0) # replicate (sequence_length cfg - 1) []"
proof -
  obtain sd g where sg: "gen_seeds ops (seed cfg) = (sd, g)" by (cases "gen_seeds ops (seed cfg)")
  obtain nts arr warned where it: "init_terminal_states ops cfg = (nts, arr, warned)"
    by (cases "init_terminal_states ops cfg")
  from assms(1) sg it obtain e' s0 where rs: "reset ops e' = Inr (s0, e0)"
    and e': "config e' = cfg"
    by (auto simp: construct_def split: if_splits sum.splits)
  have k: "sequence_length cfg \<noteq> 0" by (rule construct_Inr(2) [OF assms(1)])
  have sp: "specific_sequences e0 = specific_sequences e'" by (rule reset_fields(5) [OF rs])
  have c: "config e0 = config e'" by (rule reset_fields(1) [OF rs])
  have a: "all_specific_sequences e0 = all_specific_sequences e'"
    unfolding all_specific_sequences_def sp c by (rule refl)
  from rs e' assms(2) k have
    "possible_remaining_sequences e0 =
       map (take 1) (all_specific_sequences e') # replicate (sequence_length cfg - 1) []"
    by (auto simp: reset_def split: sum.splits if_splits)
  then show ?thesis unfolding a .
qed

lemma run_dense_prs_length:
  assumes "construct ops cfg = Inr e0" and "make_denser cfg"
    and "run ops e0 as = Inr (outs, e)"
  shows "length (possible_remaining_sequences e) = sequence_length cfg"
proof (cases as rule: rev_cases)
  case Nil
  then have "e = e0" using assms(3) by simp
  then show ?thesis
    using construct_dense_start [OF assms(1,2)] construct_Inr(2) [OF assms(1)] by simp
next
  case (snoc as' a)
  from assms(3) [unfolded snoc] obtain outs' e1 out where
    r: "run ops e0 as' = Inr (outs', e1)" and st0: "step ops e1 a False = Inr (out, e)"
    by (rule run_snoc_Inr)
  obtain s r' dn where out: "out = (s, r', dn)" by (cases out)
  have c1: "config e1 = cfg"
    using run_invariant [OF r construct_start(1) [OF assms(1)]] construct_Inr(1) [OF assms(1)]
    by simp
  from st0 [unfolded out] obtain e2 r0 where
    "reward_function (e2\<lparr>curr_state := s\<rparr>) (OneState s) a False = Inr (r0, e)"
    "config e2 = config e1"
    by (rule step_Inr) (auto dest: transition_function_fields(1))
  then have "possible_remaining_sequences e
      = rebuild_possible_remaining_sequences (e2\<lparr>curr_state := s\<rparr>) (augmented_state e2)"
    using assms(2) c1
    by (auto simp: reward_function_def Let_def split: if_splits sum.splits prod.splits)
  then show ?thesis using \<open>config e2 = config e1\<close> c1 by (simp add: length_rebuild)
qed

lemma sum_1_3: "(\<Sum>j = 1..(3::nat). f j) = f 1 + f 2 + (f 3 :: real)"
proof -
  have s: "{1..3::nat} = {1, 2, 3}" by auto
  show ?thesis unfolding s by simp
qed

lemma curr_seq_being_checked_cong:
  assumes "config e = config e'"
  shows "curr_seq_being_checked e sc j = curr_seq_being_checked e' sc j"
  unfolding curr_seq_being_checked_def augmented_state_length_def assms by (rule refl)

lemma all_specific_sequences_cong:
  assumes "config e = config e'" and "specific_sequences e = specific_sequences e'"
  shows "all_specific_sequences e = all_specific_sequences e'"
  unfolding all_specific_sequences_def assms by (rule refl)

lemma dense_last_step:
  assumes "construct ops cfg = Inr e0" and "make_denser cfg"
    and "run ops e0 (as @ [act]) = Inr (outs, e)"
  shows "\<exists>outs' e1 s r dn.
      run ops e0 as = Inr (outs', e1) \<and> step ops e1 act False = Inr ((s, r, dn), e) \<and>
      outs = outs' @ [(s, r, dn)] \<and>
      (let k = sequence_length cfg;
           base = (\<Sum>j = 1..k.
                     real (count_list (map as_states (possible_remaining_sequences e1 ! (j - 1)))
                             (curr_seq_being_checked e (augmented_state e) j))
                       * reward_scale cfg * real j / real k)
       in r = base + fst (draw_reward_noise e1) + reward_shift cfg
                + (if dn then term_state_reward cfg * reward_scale cfg else 0) \<and>
          total_reward_episode e = total_reward_episode e1 + base)"
proof -
  from assms(3) obtain outs' e1 out where
    r: "run ops e0 as = Inr (outs', e1)" and st0: "step ops e1 act False = Inr (out, e)"
    and o: "outs = outs' @ [out]"
    by (rule run_snoc_Inr)
  obtain s r' dn where out: "out = (s, r', dn)" by (cases out)
  note st = st0 [unfolded out]
  have cfg0: "config e0 = cfg" by (rule construct_Inr(1) [OF assms(1)])
  note start = construct_start [OF assms(1)]
  note inv1 = run_invariant [OF r start(1)]
  note inv = run_invariant [OF assms(3) start(1)]
  have c1: "config e1 = cfg" "specific_sequences e1 = specific_sequences e0"
    using inv1 cfg0 by simp_all
  have c: "config e = config e1" using inv c1 cfg0 by simp
  have h: "make_denser (config e1)"
    "sequence_length (config e1) \<le> length (specific_sequences e1)"
    "sequence_length (config e1) \<le> length (possible_remaining_sequences e1)"
    using assms(2) c1 start(2) run_dense_prs_length [OF assms(1,2) r] by simp_all
  note sd = step_dense [OF st h]
  let ?base = "\<Sum>j = 1..sequence_length cfg.
                     real (count_list (map as_states (possible_remaining_sequences e1 ! (j - 1)))
                             (curr_seq_being_checked e (augmented_state e) j))
                       * reward_scale cfg * real j / real (sequence_length cfg)"
  have base: "dense_reward e1 (augmented_state e) = ?base"
    unfolding dense_reward_sum c1(1) curr_seq_being_checked_cong [OF c] by (rule refl)
  have r': "r' = ?base + fst (draw_reward_noise e1) + reward_shift cfg
                + (if dn then term_state_reward cfg * reward_scale cfg else 0)"
    using sd(2) base c1(1) by simp
  have tot: "total_reward_episode e = total_reward_episode e1 + ?base"
    using sd(1) base by simp
  show ?thesis
    apply (rule exI [of _ outs'], rule exI [of _ e1], rule exI [of _ s], rule exI [of _ r'],
        rule exI [of _ dn])
    unfolding Let_def using r st o out r' tot by blast
qed

lemma gen_sequences_distinct:
  "gen_sequences perms nt cs seqs cl = Inr (seqs', cl') \<Longrightarrow>
     cl \<le> cl' \<and> (cl' = cl \<longrightarrow> distinct seqs \<longrightarrow> distinct seqs')"
proof (induction cs arbitrary: seqs cl)
  case Nil
  then show ?case by simp
next
  case (Cons c cs)
  from Cons.prems obtain seq where
    r: "gen_sequences perms nt cs (seqs @ [seq]) (if seq \<in> set seqs then Suc cl else cl)
          = Inr (seqs', cl')"
    by (auto split: sum.splits)
  from Cons.IH [OF r] show ?case by (auto split: if_splits)
qed

lemma decode_permutation_length:
  "decode_permutation js c ds = Inr seq \<Longrightarrow> length seq = length js"
proof (induction js arbitrary: c ds seq)
  case Nil
  then show ?case by simp
next
  case (Cons j js)
  from Cons.prems obtain r seq' where
    "decode_permutation js (np_floordiv c j) (take r ds @ drop (Suc r) ds) = Inr seq'"
    "seq = ds ! r # seq'"
    by (auto split: sum.splits)
  with Cons.IH show ?case by auto
qed

lemma gen_sequences_lengths:
  "gen_sequences perms nt cs seqs cl = Inr (seqs', cl') \<Longrightarrow>
     (\<forall>x \<in> set seqs. length x = length perms) \<Longrightarrow> (\<forall>x \<in> set seqs'. length x = length perms)"
proof (induction cs arbitrary: seqs cl)
  case Nil
  then show ?case by simp
next
  case (Cons c cs)
  from Cons.prems(1) obtain seq where
    d: "decode_permutation (rev perms) c [0..<nt] = Inr seq" and
    r: "gen_sequences perms nt cs (seqs @ [seq]) (if seq \<in> set seqs then Suc cl else cl)
          = Inr (seqs', cl')"
    by (auto split: sum.splits)
  have "length seq = length perms" using decode_permutation_length [OF d] by simp
  with Cons.prems(2) have "\<forall>x \<in> set (seqs @ [seq]). length x = length perms" by simp
  from Cons.IH [OF r this] show ?case .
qed

lemma init_reward_function_sequences:
  assumes "init_reward_function ops cfg nts g = Inr (S, g')"
  shows "distinct (S ! (sequence_length cfg - 1))"
    and "\<forall>x \<in> set (S ! (sequence_length cfg - 1)). length x = sequence_length cfg"
proof -
  have nr: "\<not> repeats_in_sequences cfg"
    using assms by (auto simp: init_reward_function_def Let_def split: sum.splits if_splits)
  let ?perms = "[int (state_space_size cfg) - nts + 1 - int (sequence_length cfg)
                  ..int (state_space_size cfg) - nts]"
  let ?N = "wrap64 (prod_list ?perms)"
  let ?num = "int_trunc (float_times_int ops (reward_density cfg) ?N)"
  from assms nr obtain sel g1 where
    sel: "choice_no_replace ops ?N ?num g = Inr (sel, g1)"
    by (auto simp: init_reward_function_def Let_def split: sum.splits)
  from assms nr sel have len: "\<not> int (length sel) < ?num"
    by (auto simp: init_reward_function_def Let_def split: if_splits)
  from assms nr sel len obtain seqs tc where
    gs: "gen_sequences ?perms (nat (int (state_space_size cfg) - nts)) (take (nat ?num) sel) [] 0
           = Inr (seqs, tc)"
    by (auto simp: init_reward_function_def Let_def split: sum.splits)
  from assms nr sel len gs have S: "S = replicate (sequence_length cfg - 1) [] @ [seqs]"
    and tc: "tc = 0"
    by (auto simp: init_reward_function_def Let_def split: if_splits)
  have nth: "S ! (sequence_length cfg - 1) = seqs" unfolding S by (simp add: nth_append)
  show "distinct (S ! (sequence_length cfg - 1))"
    unfolding nth using gen_sequences_distinct [OF gs] tc by simp
  have "length ?perms = sequence_length cfg" by simp
  then show "\<forall>x \<in> set (S ! (sequence_length cfg - 1)). length x = sequence_length cfg"
    unfolding nth using gen_sequences_lengths [OF gs] by simp
qed

lemma concat_replicate_Nil: "concat (replicate n []) = []"
  by (induction n) simp_all

lemma construct_rewardable:
  assumes "construct ops cfg = Inr e0"
  shows "all_specific_sequences e0 = rewardable_sequences e0"
    and "distinct (rewardable_sequences e0)"
    and "\<forall>x \<in> set (rewardable_sequences e0). length x = sequence_length cfg"
proof -
  have cfg0: "config e0 = cfg" by (rule construct_Inr(1) [OF assms])
  have k: "sequence_length cfg \<noteq> 0" by (rule construct_Inr(2) [OF assms])
  from construct_Inr(6) [OF assms] obtain g g' where
    irf: "init_reward_function ops cfg (num_terminal_states e0) g = Inr (specific_sequences e0, g')"
    by blast
  from init_reward_function_no_repeats(2) [OF irf] obtain seqs where
    S: "specific_sequences e0 = replicate (sequence_length cfg - 1) [] @ [seqs]" by blast
  have len: "length (specific_sequences e0) = sequence_length cfg" unfolding S using k by simp
  have "map (\<lambda>i. specific_sequences e0 ! i) [0..<sequence_length cfg] = specific_sequences e0"
    unfolding len [symmetric] by (rule map_nth)
  then have a: "all_specific_sequences e0 = concat (specific_sequences e0)"
    unfolding all_specific_sequences_def cfg0 by (simp only:)
  have r: "rewardable_sequences e0 = seqs"
    unfolding rewardable_sequences_def cfg0 S by (simp add: nth_append)
  show "all_specific_sequences e0 = rewardable_sequences e0"
    unfolding a r unfolding S by (simp add: concat_replicate_Nil)
  show "distinct (rewardable_sequences e0)"
    unfolding rewardable_sequences_def cfg0 by (rule init_reward_function_sequences(1) [OF irf])
  show "\<forall>x \<in> set (rewardable_sequences e0). length x = sequence_length cfg"
    unfolding rewardable_sequences_def cfg0 by (rule init_reward_function_sequences(2) [OF irf])
qed

lemma count_list_map_filter:
  "count_list (map f xs) y = length (filter (\<lambda>x. f x = y) xs)"
  by (induction xs) simp_all

lemma window_slice:
  assumes "j \<le> k"
  shows "py_slice (k + d + 1 - j - d) (k + d + 1 - d) (drop t xs) = take j (drop (t + k + 1 - j) xs)"
proof -
  have a: "k + d + 1 - d = k + 1" "k + d + 1 - j - d = k + 1 - j" by simp_all
  have b: "k + 1 - (k + 1 - j) = j" "k + 1 - j + t = t + k + 1 - j" using assms by simp_all
  show ?thesis unfolding py_slice_def a drop_drop b by (rule refl)
qed

lemma window_some:
  assumes "d + j \<le> t + 1"
  shows "take j (drop (t + k + 1 - j) (replicate (k + d) None @ map Some hist))
           = map Some (take j (drop (t + 1 - d - j) hist))"
proof -
  define m where "m = t + 1 - d - j"
  have t: "t + k + 1 - j = length (replicate (k + d) (None :: 'a option)) + m"
    using assms by (simp add: m_def)
  have "drop (t + k + 1 - j) (replicate (k + d) None @ map Some hist) = map Some (drop m hist)"
    unfolding t drop_append by (simp add: drop_map)
  then show ?thesis unfolding m_def by (simp only: take_map)
qed

lemma window_none:
  assumes "j \<noteq> 0" and "j \<le> k" and "\<not> d + j \<le> t + 1"
  shows "\<exists>rest. take j (drop (t + k + 1 - j) (replicate (k + d) None @ ys)) = None # rest"
proof -
  define st where "st = t + k + 1 - j"
  have lt: "st < k + d" unfolding st_def using assms(2,3) by linarith
  then obtain i where i: "k + d - st = Suc i" by (cases "k + d - st") auto
  have kd: "k + d = st + Suc i" using i by linarith
  have "replicate (k + d) None @ ys = replicate st None @ (None # replicate i None @ ys)"
    unfolding kd by (simp add: replicate_add replicate_append_same)
  then have "drop st (replicate (k + d) None @ ys) = None # replicate i None @ ys"
    by (rule drop_replicate_prefix)
  then have "take j (drop st (replicate (k + d) None @ ys)) = take j (None # replicate i None @ ys)"
    by (simp only:)
  also have "\<dots> = None # take (j - 1) (replicate i None @ ys)"
    using assms(1) by (rule take_Cons_pos)
  finally show ?thesis unfolding st_def by blast
qed

lemma window_prev:
  assumes "j \<noteq> 0" and "j \<le> k" and "t \<noteq> 0" and "length xs = k + d + t"
  shows "take (j - 1) (drop (t - 1 + k + 1 - (j - 1)) xs)
           = take (j - 1) (take j (drop (t + k + 1 - j) (xs @ [y])))"
proof -
  have a: "t - 1 + k + 1 - (j - 1) = t + k + 1 - j" using assms(1,3) by simp
  have "take (j - 1) (take j (drop (t + k + 1 - j) (xs @ [y])))
      = take (j - 1) (drop (t + k + 1 - j) (xs @ [y]))"
    by (simp add: min_def)
  also have "\<dots> = take (j - 1) (drop (t + k + 1 - j) xs)"
  proof -
    have "j - 1 \<le> length (drop (t + k + 1 - j) xs)" using assms by simp
    moreover have "t + k + 1 - j \<le> length xs" using assms by simp
    ultimately show ?thesis by simp
  qed
  finally show ?thesis unfolding a by (rule sym)
qed

lemma as_states_take: "take i (as_states (take (Suc i) seq)) = as_states (take i seq)"
  by (simp add: as_states_def take_map min_def)

lemma as_states_eq_Some: "as_states xs = map Some w \<longleftrightarrow> xs = w"
  by (simp add: as_states_def inj_map_eq_map)

lemma as_states_ne_None: "as_states xs \<noteq> None # rest"
  by (cases xs) (simp_all add: as_states_def)

lemma dense_candidates:
  assumes c: "construct ops cfg = Inr e0" and md: "make_denser cfg"
    and r: "run ops e0 as = Inr (outs', e1)"
    and j: "j \<noteq> 0" "j \<le> sequence_length cfg"
  shows "count_list (map as_states (possible_remaining_sequences e1 ! (j - 1))) cj
     = (if as = [] then
          (if j = 1
           then length (filter (\<lambda>seq. as_states (take j seq) = cj) (rewardable_sequences e0))
           else 0)
        else length (filter (\<lambda>seq.
                 curr_seq_being_checked e0 (augmented_state e1) (j - 1)
                   = as_states (take (j - 1) seq) \<and>
                 as_states (take j seq) = cj) (rewardable_sequences e0)))"
proof (cases as rule: rev_cases)
  case Nil
  then have e1: "e1 = e0" using r by simp
  note p = construct_dense_start [OF c md, unfolded construct_rewardable(1) [OF c]]
  show ?thesis
  proof (cases "j = 1")
    case True
    have "possible_remaining_sequences e0 ! (j - 1) = map (take 1) (rewardable_sequences e0)"
      unfolding p True by simp
    then show ?thesis unfolding e1 using Nil True
      by (simp add: count_list_map_filter comp_def)
  next
    case False
    then obtain i where i: "j - 1 = Suc i" using j(1) by (cases "j - 1") auto
    then have "i < sequence_length cfg - 1" using j(2) by linarith
    then have "possible_remaining_sequences e0 ! (j - 1) = []"
      unfolding p i by simp
    then show ?thesis unfolding e1 using Nil False by simp
  qed
next
  case (snoc as' a')
  from r [unfolded snoc] obtain outs'' ep out where
    rp: "run ops e0 as' = Inr (outs'', ep)" and st0: "step ops ep a' False = Inr (out, e1)"
    by (rule run_snoc_Inr)
  obtain s r' dn where out: "out = (s, r', dn)" by (cases out)
  note st = st0 [unfolded out]
  have cfg0: "config e0 = cfg" by (rule construct_Inr(1) [OF c])
  note start = construct_start [OF c]
  note invp = run_invariant [OF rp start(1)]
  have cp: "config ep = config e0" "specific_sequences ep = specific_sequences e0"
    using invp by simp_all
  have h: "make_denser (config ep)"
    "sequence_length (config ep) \<le> length (specific_sequences ep)"
    "sequence_length (config ep) \<le> length (possible_remaining_sequences ep)"
    using md cp cfg0 start(2) run_dense_prs_length [OF c md rp] by simp_all
  have "possible_remaining_sequences e1
      = rebuild_possible_remaining_sequences ep (augmented_state e1)"
    by (rule step_dense(3) [OF st h])
  also have "\<dots> = rebuild_possible_remaining_sequences e0 (augmented_state e1)"
    by (rule rebuild_cong [OF cp])
  finally have p: "possible_remaining_sequences e1
      = rebuild_possible_remaining_sequences e0 (augmented_state e1)" .
  have jk: "j - 1 < sequence_length cfg" using j by linarith
  have jj: "j - 1 + 1 = j" using j(1) by simp
  have "possible_remaining_sequences e1 ! (j - 1)
      = map (take j)
          (filter (\<lambda>seq. curr_seq_being_checked e0 (augmented_state e1) (j - 1)
                            = as_states (take (j - 1) seq))
                  (rewardable_sequences e0))"
    unfolding p rebuild_possible_remaining_sequences_def cfg0 construct_rewardable(1) [OF c]
    using jk jj by simp
  then show ?thesis using snoc
    by (simp add: count_list_map_filter comp_def conj_commute)
qed

lemma dense_count:
  assumes c: "construct ops cfg = Inr e0" and md: "make_denser cfg"
    and run: "run ops e0 (as @ [act]) = Inr (outs, e)"
    and r: "run ops e0 as = Inr (outs', e1)"
    and j: "j \<noteq> 0" "j \<le> sequence_length cfg"
  shows "count_list (map as_states (possible_remaining_sequences e1 ! (j - 1)))
            (curr_seq_being_checked e (augmented_state e) j)
     = (if delay cfg + j \<le> length outs + 1 \<and> (j = 1 \<or> 2 \<le> length outs)
        then length (filter (\<lambda>seq. take j seq
                        = take j (drop (length outs + 1 - delay cfg - j)
                                    (curr_state e0 # map fst outs)))
                     (rewardable_sequences e0))
        else 0)"
proof -
  define k where "k = sequence_length cfg"
  define d where "d = delay cfg"
  define t where "t = length outs"
  define hist where "hist = curr_state e0 # map fst outs"
  define hist' where "hist' = curr_state e0 # map fst outs'"
  define pad where "pad = replicate (k + d) (None :: nat option)"
  define cj where "cj = curr_seq_being_checked e (augmented_state e) j"
  have cfg0: "config e0 = cfg" by (rule construct_Inr(1) [OF c])
  note start = construct_start [OF c]
  have start': "augmented_state e0 = pad @ [Some (curr_state e0)]"
    unfolding pad_def k_def d_def by (rule start(1))
  note inv = run_invariant [OF run start']
  note inv1 = run_invariant [OF r start']
  from run r obtain out where o: "outs = outs' @ [out]"
    by (auto simp: run_append split: sum.splits)
  have t: "t = length as + 1" unfolding t_def using inv by simp
  have t1: "length outs' = length as" using inv1 by simp
  have hist: "hist = hist' @ [fst out]" unfolding hist_def hist'_def o by simp
  have ce: "config e = cfg" using inv cfg0 by simp
  have L: "augmented_state_length e = k + d + 1" "augmented_state_length e0 = k + d + 1"
    unfolding augmented_state_length_def ce cfg0 k_def d_def by simp_all
  have aug: "augmented_state e = drop t (pad @ map Some hist)"
    unfolding t hist_def using inv by simp
  have aug1: "augmented_state e1 = drop (t - 1) (pad @ map Some hist')"
    unfolding t hist'_def using inv1 by simp
  have jk: "j \<le> k" unfolding k_def by (rule j(2))
  have cj: "cj = take j (drop (t + k + 1 - j) (pad @ map Some hist))"
    unfolding cj_def curr_seq_being_checked_def L ce d_def [symmetric] aug
    by (rule window_slice [OF jk])
  have prev: "curr_seq_being_checked e0 (augmented_state e1) (j - 1) = take (j - 1) cj"
  proof -
    have j1: "j - 1 \<le> k" using jk by simp
    have len: "length (pad @ map Some hist') = k + d + t"
      unfolding pad_def hist'_def t using t1 by simp
    have tn: "t \<noteq> 0" unfolding t by simp
    have "curr_seq_being_checked e0 (augmented_state e1) (j - 1)
        = take (j - 1) (drop (t - 1 + k + 1 - (j - 1)) (pad @ map Some hist'))"
      unfolding curr_seq_being_checked_def L cfg0 d_def [symmetric] aug1
      by (rule window_slice [OF j1])
    also have "\<dots> = take (j - 1) (take j (drop (t + k + 1 - j)
                           ((pad @ map Some hist') @ [Some (fst out)])))"
      by (rule window_prev [OF j(1) jk tn len])
    also have "(pad @ map Some hist') @ [Some (fst out)] = pad @ map Some hist"
      unfolding hist by simp
    finally show ?thesis unfolding cj .
  qed
  have implied: "(take (j - 1) cj = as_states (take (j - 1) seq) \<and> as_states (take j seq) = cj)
      \<longleftrightarrow> as_states (take j seq) = cj" for seq
  proof -
    obtain i where i: "j = Suc i" using j(1) by (cases j) auto
    show ?thesis unfolding i using as_states_take [of i seq] by auto
  qed
  have cand: "count_list (map as_states (possible_remaining_sequences e1 ! (j - 1))) cj
     = (if j = 1 \<or> 2 \<le> t
        then length (filter (\<lambda>seq. as_states (take j seq) = cj) (rewardable_sequences e0))
        else 0)"
  proof (cases "as = []")
    case True
    then have "\<not> 2 \<le> t" unfolding t by simp
    then show ?thesis unfolding dense_candidates [OF c md r j] using True by simp
  next
    case False
    then have "2 \<le> t" unfolding t by (cases as) simp_all
    then show ?thesis unfolding dense_candidates [OF c md r j] prev implied using False by simp
  qed
  have win: "length (filter (\<lambda>seq. as_states (take j seq) = cj) (rewardable_sequences e0))
     = (if d + j \<le> t + 1
        then length (filter (\<lambda>seq. take j seq = take j (drop (t + 1 - d - j) hist))
                       (rewardable_sequences e0))
        else 0)"
  proof (cases "d + j \<le> t + 1")
    case True
    have "cj = map Some (take j (drop (t + 1 - d - j) hist))"
      unfolding cj pad_def by (rule window_some [OF True])
    then show ?thesis using True by (simp add: as_states_eq_Some)
  next
    case False
    from window_none [OF j(1) jk False] obtain rest where "cj = None # rest"
      unfolding cj pad_def by blast
    then show ?thesis using False by (simp add: as_states_ne_None)
  qed
  show ?thesis
    unfolding cj_def [symmetric] d_def [symmetric] t_def [symmetric] hist_def [symmetric]
    unfolding cand win by auto
qed

lemma distinct_filter_eq_length:
  "distinct xs \<Longrightarrow> y \<in> set xs \<Longrightarrow> length (filter (\<lambda>x. x = y) xs) = 1"
  by (induction xs) (auto simp: filter_empty_conv)

lemma filter_member_pos: "x \<in> set xs \<Longrightarrow> P x \<Longrightarrow> 1 \<le> length (filter P xs)"
proof -
  assume "x \<in> set xs" "P x"
  then have "x \<in> set (filter P xs)" by simp
  then have "0 < length (filter P xs)" by (rule length_pos_if_in_set)
  then show ?thesis by linarith
qed

text \<open>
  \<^bold>\<open>Claim C5\<close> fails as stated in its last clause. In the environment below
  (\<^verbatim>\<open>sequence_length\<close> 3, \<^verbatim>\<open>delay\<close> 0, \<^verbatim>\<open>reward_scale\<close> 1, no noise, no shift) the rewardable
  sequences are \<open>[0, 1, 2]\<close>, \<open>[1, 0, 2]\<close>, \<open>[2, 0, 1]\<close> and \<open>[0, 2, 1]\<close>. The run visits the
  states 0, 1, 2 of the rewardable triple \<open>[0, 1, 2]\<close>, and the rewards are 2/3, 1 and 4/3,
  not 1/3, 2/3 and 1: two rewardable sequences begin with 0; at the second step the state 1
  is also the first state of \<open>[1, 0, 2]\<close>; at the third step the state 2 is also the first
  state of \<open>[2, 0, 1]\<close>.
\<close>

theorem dense_reward_counterexample:
  "(case construct toy_samplers (example_config 4 3 0 0 (1/4) (3/4) True True) of
      Inl err \<Rightarrow> False
    | Inr e0 \<Rightarrow>
        rewardable_sequences e0 = [[0, 1, 2], [1, 0, 2], [2, 0, 1], [0, 2, 1]] \<and>
        sequence_length (config e0) = 3 \<and> delay (config e0) = 0 \<and>
        reward_scale (config e0) = 1 \<and> reward_shift (config e0) = 0 \<and>
        (case run toy_samplers e0 [0, 1, 1] of
           Inl err \<Rightarrow> False
         | Inr (outs, e) \<Rightarrow>
             outs = [(0, 2 / 3, False), (1, 1, False), (2, 4 / 3, False)])) \<and>
   [2 / 3, 1, 4 / 3 :: real] \<noteq> [1 * 1 / 3, 1 * 2 / 3, 1]"
proof -
  have "case construct toy_samplers (example_config 4 3 0 0 (1/4) (3/4) True True) of
      Inl err \<Rightarrow> False
    | Inr e0 \<Rightarrow>
        rewardable_sequences e0 = [[0, 1, 2], [1, 0, 2], [2, 0, 1], [0, 2, 1]] \<and>
        sequence_length (config e0) = 3 \<and> delay (config e0) = 0 \<and>
        reward_scale (config e0) = 1 \<and> reward_shift (config e0) = 0 \<and>
        (case run toy_samplers e0 [0, 1, 1] of
           Inl err \<Rightarrow> False
         | Inr (outs, e) \<Rightarrow>
             outs = [(0, 2 / 3, False), (1, 1, False), (2, 4 / 3, False)])"
    by code_simp
  moreover have "[2 / 3, 1, 4 / 3 :: real] \<noteq> [1 * 1 / 3, 1 * 2 / 3, 1]" by simp
  ultimately show ?thesis by (rule conjI)
qed

text \<open>
  \<^bold>\<open>Claim C5, amended.\<close> In a constructed discrete environment with \<^verbatim>\<open>make_denser\<close> true,
  consider the last step, step \<open>t\<close>, of any run of steps from the start of the episode, and
  let \<open>k\<close> be \<^verbatim>\<open>sequence_length\<close> and \<open>d\<close> be \<^verbatim>\<open>delay\<close>. The reward of the step is, before noise,
  shift and terminal bonus, the sum over \<open>j\<close> from 1 to \<open>k\<close> of \<open>n\<^sub>j\<close> times
  \<^verbatim>\<open>reward_scale * j / sequence_length\<close>, and this sum is what the step adds to
  \<^verbatim>\<open>total_reward_episode\<close>. Here \<open>n\<^sub>j\<close> is the number of occurrences of \<open>c\<^sub>j\<close>, the slice of the
  augmented state of length \<open>j\<close> that ends \<^verbatim>\<open>delay\<close> places before its end, in
  \<^verbatim>\<open>possible_remaining_sequences[j - 1]\<close> as it is before the step rebuilds it. In terms of
  the states visited, where the state at step 0 is the start state: \<open>n\<^sub>j\<close> is the number of
  rewardable sequences whose first \<open>j\<close> states are the \<open>j\<close> states that end at step \<open>t - d\<close>, if
  these states exist and either \<open>j = 1\<close> or the step is not the first of the episode; otherwise
  \<open>n\<^sub>j\<close> is 0.

  In particular, with \<^verbatim>\<open>sequence_length\<close> 3 the reward is
  \<open>n\<^sub>1 * reward_scale * 1/3 + n\<^sub>2 * reward_scale * 2/3 + n\<^sub>3 * reward_scale\<close>, and for a
  rewardable triple \<open>[a, b, c]\<close>: \<open>n\<^sub>1\<close> is at least 1 when the state that ends at step \<open>t - d\<close>
  is \<open>a\<close>; \<open>n\<^sub>2\<close> is at least 1 when the two states are \<open>a, b\<close> and the step is not the first of
  the episode; and \<open>n\<^sub>3\<close> is exactly 1 when the three states are \<open>a, b, c\<close>. So driving a
  rewardable triple is rewarded, \<^verbatim>\<open>delay\<close> steps later, with at least one third, then two
  thirds, then the whole of \<^verbatim>\<open>reward_scale\<close>, and with more where other rewardable sequences
  share the states.
\<close>

theorem dense_reward_law:
  assumes "construct ops cfg = Inr e0" and "make_denser cfg"
    and "run ops e0 (as @ [act]) = Inr (outs, e)"
  shows "\<exists>outs' e1 s r dn.
      run ops e0 as = Inr (outs', e1) \<and> step ops e1 act False = Inr ((s, r, dn), e) \<and>
      outs = outs' @ [(s, r, dn)] \<and>
      (let k = sequence_length cfg; d = delay cfg; t = length outs;
           hist = curr_state e0 # map fst outs;
           w = (\<lambda>j. take j (drop (t + 1 - d - j) hist));
           n = (\<lambda>j. if d + j \<le> t + 1 \<and> (j = 1 \<or> 2 \<le> t)
                    then length (filter (\<lambda>seq. take j seq = w j) (rewardable_sequences e0))
                    else 0);
           base = (\<Sum>j = 1..k. real (n j) * reward_scale cfg * real j / real k)
       in (\<forall>j \<in> {1..k}.
             count_list (map as_states (possible_remaining_sequences e1 ! (j - 1)))
               (curr_seq_being_checked e (augmented_state e) j) = n j) \<and>
          r = base + fst (draw_reward_noise e1) + reward_shift cfg
                + (if dn then term_state_reward cfg * reward_scale cfg else 0) \<and>
          total_reward_episode e = total_reward_episode e1 + base \<and>
          (k = 3 \<longrightarrow>
             base = real (n 1) * reward_scale cfg * 1 / 3 + real (n 2) * reward_scale cfg * 2 / 3
                      + real (n 3) * reward_scale cfg) \<and>
          (\<forall>a b c. k = 3 \<and> [a, b, c] \<in> set (rewardable_sequences e0) \<longrightarrow>
             (d + 1 \<le> t + 1 \<and> w 1 = [a] \<longrightarrow> 1 \<le> n 1) \<and>
             (d + 2 \<le> t + 1 \<and> 2 \<le> t \<and> w 2 = [a, b] \<longrightarrow> 1 \<le> n 2) \<and>
             (d + 3 \<le> t + 1 \<and> 2 \<le> t \<and> w 3 = [a, b, c] \<longrightarrow> n 3 = 1)))"
proof -
  define k where "k = sequence_length cfg"
  define d where "d = delay cfg"
  define t where "t = length outs"
  define hist where "hist = curr_state e0 # map fst outs"
  define w where "w = (\<lambda>j. take j (drop (t + 1 - d - j) hist))"
  define n where "n = (\<lambda>j. if d + j \<le> t + 1 \<and> (j = 1 \<or> 2 \<le> t)
                    then length (filter (\<lambda>seq. take j seq = w j) (rewardable_sequences e0))
                    else 0)"
  define base where "base = (\<Sum>j = 1..k. real (n j) * reward_scale cfg * real j / real k)"
  from dense_last_step [OF assms] obtain outs' e1 s r dn where
    r: "run ops e0 as = Inr (outs', e1)" and st: "step ops e1 act False = Inr ((s, r, dn), e)"
    and o: "outs = outs' @ [(s, r, dn)]"
    and law: "let k = sequence_length cfg;
           base = (\<Sum>j = 1..k.
                     real (count_list (map as_states (possible_remaining_sequences e1 ! (j - 1)))
                             (curr_seq_being_checked e (augmented_state e) j))
                       * reward_scale cfg * real j / real k)
       in r = base + fst (draw_reward_noise e1) + reward_shift cfg
                + (if dn then term_state_reward cfg * reward_scale cfg else 0) \<and>
          total_reward_episode e = total_reward_episode e1 + base"
    by blast
  have cnt: "count_list (map as_states (possible_remaining_sequences e1 ! (j - 1)))
               (curr_seq_being_checked e (augmented_state e) j) = n j"
    if "j \<in> {1..k}" for j
  proof -
    from that have j: "j \<noteq> 0" "j \<le> sequence_length cfg" unfolding k_def by simp_all
    show ?thesis
      unfolding n_def w_def hist_def t_def d_def by (rule dense_count [OF assms r j])
  qed
  have "(\<Sum>j = 1..k.
           real (count_list (map as_states (possible_remaining_sequences e1 ! (j - 1)))
                   (curr_seq_being_checked e (augmented_state e) j))
             * reward_scale cfg * real j / real k) = base"
    unfolding base_def by (rule sum.cong [OF refl]) (simp only: cnt)
  with law have rr: "r = base + fst (draw_reward_noise e1) + reward_shift cfg
                + (if dn then term_state_reward cfg * reward_scale cfg else 0)"
    and tot: "total_reward_episode e = total_reward_episode e1 + base"
    unfolding Let_def k_def by simp_all
  have b3: "base = real (n 1) * reward_scale cfg * 1 / 3 + real (n 2) * reward_scale cfg * 2 / 3
                      + real (n 3) * reward_scale cfg" if "k = 3"
    unfolding base_def that sum_1_3 by simp
  have tri: "(d + 1 \<le> t + 1 \<and> w 1 = [a] \<longrightarrow> 1 \<le> n 1) \<and>
             (d + 2 \<le> t + 1 \<and> 2 \<le> t \<and> w 2 = [a, b] \<longrightarrow> 1 \<le> n 2) \<and>
             (d + 3 \<le> t + 1 \<and> 2 \<le> t \<and> w 3 = [a, b, c] \<longrightarrow> n 3 = 1)"
    if "k = 3 \<and> [a, b, c] \<in> set (rewardable_sequences e0)" for a b c
  proof (intro conjI impI)
    from that have k3: "k = 3" and m: "[a, b, c] \<in> set (rewardable_sequences e0)" by simp_all
    {
      assume "d + 1 \<le> t + 1 \<and> w 1 = [a]"
      then have n1: "n 1 = length (filter (\<lambda>seq. take 1 seq = [a]) (rewardable_sequences e0))"
        unfolding n_def by simp
      show "1 \<le> n 1" unfolding n1 by (rule filter_member_pos [OF m]) simp
    }
    {
      assume "d + 2 \<le> t + 1 \<and> 2 \<le> t \<and> w 2 = [a, b]"
      then have n2: "n 2 = length (filter (\<lambda>seq. take 2 seq = [a, b]) (rewardable_sequences e0))"
        unfolding n_def by simp
      show "1 \<le> n 2" unfolding n2 by (rule filter_member_pos [OF m]) simp
    }
    {
      assume "d + 3 \<le> t + 1 \<and> 2 \<le> t \<and> w 3 = [a, b, c]"
      then have n3: "n 3 = length (filter (\<lambda>seq. take 3 seq = [a, b, c]) (rewardable_sequences e0))"
        unfolding n_def by simp
      have "filter (\<lambda>seq. take 3 seq = [a, b, c]) (rewardable_sequences e0)
          = filter (\<lambda>seq. seq = [a, b, c]) (rewardable_sequences e0)"
      proof (rule filter_cong [OF refl])
        fix seq assume "seq \<in> set (rewardable_sequences e0)"
        then have "length seq = 3"
          using construct_rewardable(3) [OF assms(1)] k3 unfolding k_def by simp
        then show "(take 3 seq = [a, b, c]) = (seq = [a, b, c])" by simp
      qed
      then show "n 3 = 1"
        unfolding n3 using distinct_filter_eq_length [OF construct_rewardable(2) [OF assms(1)] m]
        by simp
    }
  qed
  have "(\<forall>j \<in> {1..k}.
             count_list (map as_states (possible_remaining_sequences e1 ! (j - 1)))
               (curr_seq_being_checked e (augmented_state e) j) = n j) \<and>
          r = base + fst (draw_reward_noise e1) + reward_shift cfg
                + (if dn then term_state_reward cfg * reward_scale cfg else 0) \<and>
          total_reward_episode e = total_reward_episode e1 + base \<and>
          (k = 3 \<longrightarrow>
             base = real (n 1) * reward_scale cfg * 1 / 3 + real (n 2) * reward_scale cfg * 2 / 3
                      + real (n 3) * reward_scale cfg) \<and>
          (\<forall>a b c. k = 3 \<and> [a, b, c] \<in> set (rewardable_sequences e0) \<longrightarrow>
             (d + 1 \<le> t + 1 \<and> w 1 = [a] \<longrightarrow> 1 \<le> n 1) \<and>
             (d + 2 \<le> t + 1 \<and> 2 \<le> t \<and> w 2 = [a, b] \<longrightarrow> 1 \<le> n 2) \<and>
             (d + 3 \<le> t + 1 \<and> 2 \<le> t \<and> w 3 = [a, b, c] \<longrightarrow> n 3 = 1))"
    using cnt rr tot b3 tri by blast
  then have "let k = sequence_length cfg; d = delay cfg; t = length outs;
           hist = curr_state e0 # map fst outs;
           w = (\<lambda>j. take j (drop (t + 1 - d - j) hist));
           n = (\<lambda>j. if d + j \<le> t + 1 \<and> (j = 1 \<or> 2 \<le> t)
                    then length (filter (\<lambda>seq. take j seq = w j) (rewardable_sequences e0))
                    else 0);
           base = (\<Sum>j = 1..k. real (n j) * reward_scale cfg * real j / real k)
       in (\<forall>j \<in> {1..k}.
             count_list (map as_states (possible_remaining_sequences e1 ! (j - 1)))
               (curr_seq_being_checked e (augmented_state e) j) = n j) \<and>
          r = base + fst (draw_reward_noise e1) + reward_shift cfg
                + (if dn then term_state_reward cfg * reward_scale cfg else 0) \<and>
          total_reward_episode e = total_reward_episode e1 + base \<and>
          (k = 3 \<longrightarrow>
             base = real (n 1) * reward_scale cfg * 1 / 3 + real (n 2) * reward_scale cfg * 2 / 3
                      + real (n 3) * reward_scale cfg) \<and>
          (\<forall>a b c. k = 3 \<and> [a, b, c] \<in> set (rewardable_sequences e0) \<longrightarrow>
             (d + 1 \<le> t + 1 \<and> w 1 = [a] \<longrightarrow> 1 \<le> n 1) \<and>
             (d + 2 \<le> t + 1 \<and> 2 \<le> t \<and> w 2 = [a, b] \<longrightarrow> 1 \<le> n 2) \<and>
             (d + 3 \<le> t + 1 \<and> 2 \<le> t \<and> w 3 = [a, b, c] \<longrightarrow> n 3 = 1))"
    unfolding Let_def base_def n_def w_def hist_def t_def d_def k_def .
  with r st o show ?thesis by blast
qed

text \<open>
  The theorem at a run with \<^verbatim>\<open>delay\<close> 1: four states, triples, the rewardable sequences
  \<open>[0, 1, 2]\<close>, \<open>[1, 0, 2]\<close>, \<open>[2, 0, 1]\<close> and \<open>[0, 2, 1]\<close>, and the states 0 (the start state), 0,
  1, 2, 2. At step 4 the states that end at step 3 are \<open>2\<close>, \<open>1, 2\<close> and \<open>0, 1, 2\<close>: one
  rewardable sequence begins with 2, none with \<open>1, 2\<close>, and \<open>[0, 1, 2]\<close> is rewardable, so the
  reward is \<open>1/3 + 1 = 4/3\<close>.
\<close>

theorem dense_reward_law_witness:
  "make_denser (example_config 4 3 1 0 (1/4) (3/4) True True :: nat config) \<and>
   (case construct toy_samplers (example_config 4 3 1 0 (1/4) (3/4) True True) of
      Inl err \<Rightarrow> False
    | Inr e0 \<Rightarrow>
        (case run toy_samplers e0 ([0, 1, 1] @ [0]) of
           Inl err \<Rightarrow> False
         | Inr (outs, e) \<Rightarrow>
             curr_state e0 = 0 \<and>
             rewardable_sequences e0 = [[0, 1, 2], [1, 0, 2], [2, 0, 1], [0, 2, 1]] \<and>
             outs = [(0, 2 / 3, False), (1, 2 / 3, False), (2, 1, False), (2, 4 / 3, False)] \<and>
             (\<exists>outs' e1 s r dn.
                run toy_samplers e0 [0, 1, 1] = Inr (outs', e1) \<and>
                step toy_samplers e1 0 False = Inr ((s, r, dn), e) \<and>
                outs = outs' @ [(s, r, dn)] \<and>
                count_list (map as_states (possible_remaining_sequences e1 ! (1 - 1)))
                  (curr_seq_being_checked e (augmented_state e) 1) = 1 \<and>
                count_list (map as_states (possible_remaining_sequences e1 ! (2 - 1)))
                  (curr_seq_being_checked e (augmented_state e) 2) = 0 \<and>
                count_list (map as_states (possible_remaining_sequences e1 ! (3 - 1)))
                  (curr_seq_being_checked e (augmented_state e) 3) = 1 \<and>
                r = 4 / 3 + fst (draw_reward_noise e1) \<and>
                total_reward_episode e = total_reward_episode e1 + 4 / 3)))"
proof -
  let ?cfg = "example_config 4 3 1 0 (1/4) (3/4) True True :: nat config"
  have ev: "case construct toy_samplers ?cfg of
      Inl err \<Rightarrow> False
    | Inr e0 \<Rightarrow>
        (case run toy_samplers e0 ([0, 1, 1] @ [0]) of
           Inl err \<Rightarrow> False
         | Inr (outs, e) \<Rightarrow>
             curr_state e0 = 0 \<and>
             rewardable_sequences e0 = [[0, 1, 2], [1, 0, 2], [2, 0, 1], [0, 2, 1]] \<and>
             outs = [(0, 2 / 3, False), (1, 2 / 3, False), (2, 1, False), (2, 4 / 3, False)])"
    by code_simp
  then obtain e0 where e0: "construct toy_samplers ?cfg = Inr e0"
    by (cases "construct toy_samplers ?cfg") auto
  from ev e0 obtain outs e where run: "run toy_samplers e0 ([0, 1, 1] @ [0]) = Inr (outs, e)"
    by (cases "run toy_samplers e0 ([0, 1, 1] @ [0])") auto
  from ev e0 run have v: "curr_state e0 = 0"
    "rewardable_sequences e0 = [[0, 1, 2], [1, 0, 2], [2, 0, 1], [0, 2, 1]]"
    "outs = [(0, 2 / 3, False), (1, 2 / 3, False), (2, 1, False), (2, 4 / 3, False)]"
    by simp_all
  have c: "make_denser ?cfg" "sequence_length ?cfg = 3" "delay ?cfg = 1"
    "reward_scale ?cfg = 1" "reward_shift ?cfg = 0" "term_state_reward ?cfg = 0"
    by (simp_all add: example_config_def)
  have lo: "length outs = 4" and hist: "curr_state e0 # map fst outs = [0, 0, 1, 2, 2]"
    unfolding v by simp_all
  from dense_reward_law [OF e0 c(1) run] obtain outs' e1 s r dn where
    w: "run toy_samplers e0 [0, 1, 1] = Inr (outs', e1)"
      "step toy_samplers e1 0 False = Inr ((s, r, dn), e)"
      "outs = outs' @ [(s, r, dn)]"
    and law: "let k = sequence_length ?cfg; d = delay ?cfg; t = length outs;
           hist = curr_state e0 # map fst outs;
           w = (\<lambda>j. take j (drop (t + 1 - d - j) hist));
           n = (\<lambda>j. if d + j \<le> t + 1 \<and> (j = 1 \<or> 2 \<le> t)
                    then length (filter (\<lambda>seq. take j seq = w j) (rewardable_sequences e0))
                    else 0);
           base = (\<Sum>j = 1..k. real (n j) * reward_scale ?cfg * real j / real k)
       in (\<forall>j \<in> {1..k}.
             count_list (map as_states (possible_remaining_sequences e1 ! (j - 1)))
               (curr_seq_being_checked e (augmented_state e) j) = n j) \<and>
          r = base + fst (draw_reward_noise e1) + reward_shift ?cfg
                + (if dn then term_state_reward ?cfg * reward_scale ?cfg else 0) \<and>
          total_reward_episode e = total_reward_episode e1 + base \<and>
          (k = 3 \<longrightarrow>
             base = real (n 1) * reward_scale ?cfg * 1 / 3 + real (n 2) * reward_scale ?cfg * 2 / 3
                      + real (n 3) * reward_scale ?cfg) \<and>
          (\<forall>a b c. k = 3 \<and> [a, b, c] \<in> set (rewardable_sequences e0) \<longrightarrow>
             (d + 1 \<le> t + 1 \<and> w 1 = [a] \<longrightarrow> 1 \<le> n 1) \<and>
             (d + 2 \<le> t + 1 \<and> 2 \<le> t \<and> w 2 = [a, b] \<longrightarrow> 1 \<le> n 2) \<and>
             (d + 3 \<le> t + 1 \<and> 2 \<le> t \<and> w 3 = [a, b, c] \<longrightarrow> n 3 = 1))"
    by blast
  have m: "(1::nat) \<in> {1..3}" "(2::nat) \<in> {1..3}" "(3::nat) \<in> {1..3}" by simp_all
  from law have cnt: "\<forall>j \<in> {1..3::nat}.
             count_list (map as_states (possible_remaining_sequences e1 ! (j - 1)))
               (curr_seq_being_checked e (augmented_state e) j)
             = (if 1 + j \<le> 4 + 1 \<and> (j = 1 \<or> (2::nat) \<le> 4)
                then length (filter (\<lambda>seq. take j seq = take j (drop (4 + 1 - 1 - j) [0, 0, 1, 2, 2]))
                               [[0, 1, 2], [1, 0, 2], [2, 0, 1], [0::nat, 2, 1]])
                else 0)"
    unfolding Let_def c lo hist v(2) by (rule conjunct1)
  have c1: "count_list (map as_states (possible_remaining_sequences e1 ! (1 - 1)))
                  (curr_seq_being_checked e (augmented_state e) 1) = 1"
    unfolding cnt [THEN bspec, OF m(1)] by simp
  have c2: "count_list (map as_states (possible_remaining_sequences e1 ! (2 - 1)))
                  (curr_seq_being_checked e (augmented_state e) 2) = 0"
    unfolding cnt [THEN bspec, OF m(2)] by simp
  have c3: "count_list (map as_states (possible_remaining_sequences e1 ! (3 - 1)))
                  (curr_seq_being_checked e (augmented_state e) 3) = 1"
    unfolding cnt [THEN bspec, OF m(3)] by simp
  from law have r: "r = 4 / 3 + fst (draw_reward_noise e1)"
    and tot: "total_reward_episode e = total_reward_episode e1 + 4 / 3"
    unfolding Let_def c lo hist v(2) sum_1_3 by simp_all
  have ex: "\<exists>outs' e1 s r dn.
                run toy_samplers e0 [0, 1, 1] = Inr (outs', e1) \<and>
                step toy_samplers e1 0 False = Inr ((s, r, dn), e) \<and>
                outs = outs' @ [(s, r, dn)] \<and>
                count_list (map as_states (possible_remaining_sequences e1 ! (1 - 1)))
                  (curr_seq_being_checked e (augmented_state e) 1) = 1 \<and>
                count_list (map as_states (possible_remaining_sequences e1 ! (2 - 1)))
                  (curr_seq_being_checked e (augmented_state e) 2) = 0 \<and>
                count_list (map as_states (possible_remaining_sequences e1 ! (3 - 1)))
                  (curr_seq_being_checked e (augmented_state e) 3) = 1 \<and>
                r = 4 / 3 + fst (draw_reward_noise e1) \<and>
                total_reward_episode e = total_reward_episode e1 + 4 / 3"
    using w c1 c2 c3 r tot by blast
  show ?thesis unfolding e0 run sum.case prod.case by (intro conjI c(1) v ex)
qed

section \<open>Steps after the end of an episode\<close>







section \<open>Actions outside the action space of a continuous environment\<close>




end
